theory Spec2Isabelle
  imports Complex_Main "HOL-Library.List_Lexorder" "HOL-Library.Char_ord" "HOL-Library.Option_ord"
begin

section \<open>Strings and truthiness\<close>

text \<open>
  A JavaScript string is modelled as a \<open>string\<close>: a list of code units, here those below
  256. A value of type \<open>string | null\<close> (or an optional property) is a \<open>string option\<close>.
  JavaScript conditions test truthiness: the empty string, \<open>null\<close> and \<open>undefined\<close> are
  falsy, every other string is truthy.
\<close>

definition truthy :: "string \<Rightarrow> bool" where
  "truthy s = (s \<noteq> [])"

definition falsy :: "string \<Rightarrow> bool" where
  "falsy s = (s = [])"

definition truthy_opt :: "string option \<Rightarrow> bool" where
  "truthy_opt v = (case v of None \<Rightarrow> False | Some s \<Rightarrow> truthy s)"

text \<open>ASCII case folding, as the LIKE operator of SQLite applies it.\<close>

definition lower_ascii :: "char \<Rightarrow> char" where
  "lower_ascii c = (let n = (of_char c :: nat) in
     if 65 \<le> n \<and> n \<le> 90 then char_of (n + 32) else c)"

section \<open>Exceptions\<close>

text \<open>
  What the code throws: a \<open>TypeError\<close> of the runtime (a property read on
  \<open>undefined\<close>), an \<open>Error\<close> raised by the remote client, or a \<open>SqliteError\<close> raised by
  a statement of the store; each carries its message.
\<close>

datatype js_error = TypeError string | ApiError string | SqliteError string

fun error_message :: "js_error \<Rightarrow> string" where
  "error_message (TypeError m) = m"
| "error_message (ApiError m) = m"
| "error_message (SqliteError m) = m"

section \<open>The local store (class FellowDatabase)\<close>

subsection \<open>Rows\<close>

record NoteFields =
  sn_id :: string
  sn_title :: string
  sn_created_at :: string
  sn_updated_at :: string
  sn_event_start :: "string option"
  sn_event_end :: "string option"
  sn_event_guid :: "string option"
  sn_call_url :: "string option"
  sn_content_markdown :: "string option"

record StoredNote = NoteFields +
  sn_synced_at :: string

record RecordingFields =
  sr_id :: string
  sr_note_id :: string
  sr_title :: string
  sr_created_at :: string
  sr_updated_at :: string
  sr_event_start :: "string option"
  sr_event_end :: "string option"
  sr_recording_start :: "string option"
  sr_recording_end :: "string option"
  sr_event_guid :: "string option"
  sr_call_url :: "string option"
  sr_transcript_json :: "string option"

record StoredRecording = RecordingFields +
  sr_synced_at :: string

record ActionItemFields =
  sa_note_id :: string
  sa_content :: string
  sa_assignee :: "string option"
  sa_due_date :: "string option"
  sa_is_completed :: bool
  sa_created_at :: string

record StoredActionItem = ActionItemFields +
  sa_id :: nat

record StoredParticipant =
  sp_id :: nat
  sp_note_id :: string
  sp_email :: string

text \<open>
  The database file: one list of rows per table, in insertion order, the two
  AUTOINCREMENT counters (the rows of \<open>sqlite_sequence\<close>), and the key/value table
  \<open>sync_status\<close>.
\<close>

record db =
  db_notes :: "StoredNote list"
  db_recordings :: "StoredRecording list"
  db_action_items :: "StoredActionItem list"
  db_action_items_seq :: nat
  db_participants :: "StoredParticipant list"
  db_participants_seq :: nat
  db_sync_status :: "(string \<times> string) list"

definition empty_db :: db where
  "empty_db = \<lparr>db_notes = [], db_recordings = [], db_action_items = [], db_action_items_seq = 0,
     db_participants = [], db_participants_seq = 0, db_sync_status = []\<rparr>"

subsection \<open>INSERT ... ON CONFLICT DO UPDATE\<close>

text \<open>
  \<open>upsert_row same upd new rows\<close>: the row that conflicts with the new one (the same
  primary key) is updated in place by \<open>upd\<close>; with no conflict the new row is appended.
\<close>

fun upsert_row :: "('a \<Rightarrow> bool) \<Rightarrow> ('a \<Rightarrow> 'a) \<Rightarrow> 'a \<Rightarrow> 'a list \<Rightarrow> 'a list" where
  "upsert_row same upd new [] = [new]"
| "upsert_row same upd new (x # xs) =
     (if same x then upd x # xs else x # upsert_row same upd new xs)"

text \<open>SQL \<open>COALESCE(a, b)\<close>: the first argument that is not NULL.\<close>

definition coalesce :: "'a option \<Rightarrow> 'a option \<Rightarrow> 'a option" where
  "coalesce a b = (case a of Some v \<Rightarrow> Some v | None \<Rightarrow> b)"

subsection \<open>Constraints\<close>

text \<open>
  The tables \<open>recordings\<close>, \<open>action_items\<close> and \<open>participants\<close> declare
  \<open>FOREIGN KEY (note_id) REFERENCES notes(id)\<close>, and the driver opens the database with
  foreign keys enforced: a statement that would leave a row whose \<open>note_id\<close> is the id of
  no note throws, and changes nothing.
\<close>

definition foreign_key_failed :: js_error where
  "foreign_key_failed = SqliteError ''FOREIGN KEY constraint failed''"

text \<open>
  \<open>INTEGER PRIMARY KEY AUTOINCREMENT\<close>: a new row is given one more than the largest id
  that the table has ever held, which the counter records, and than every id in the table.
\<close>

definition next_rowid :: "nat \<Rightarrow> nat list \<Rightarrow> nat" where
  "next_rowid seq ids = Suc (fold max ids seq)"

subsection \<open>Notes\<close>

text \<open>
  \<open>upsertNote now note\<close>: \<open>now\<close> is the value of \<open>new Date().toISOString()\<close> read by the
  method. On conflict every column but \<open>id\<close> and \<open>created_at\<close> is overwritten, and
  \<open>content_markdown\<close> is coalesced with the stored value.
\<close>

definition upsertNote :: "string \<Rightarrow> NoteFields \<Rightarrow> db \<Rightarrow> db" where
  "upsertNote now note d = d\<lparr>db_notes :=
     upsert_row (\<lambda>old. sn_id old = sn_id note)
       (\<lambda>old. old\<lparr>sn_title := sn_title note,
                  sn_updated_at := sn_updated_at note,
                  sn_event_start := sn_event_start note,
                  sn_event_end := sn_event_end note,
                  sn_event_guid := sn_event_guid note,
                  sn_call_url := sn_call_url note,
                  sn_content_markdown :=
                    coalesce (sn_content_markdown note) (sn_content_markdown old),
                  sn_synced_at := now\<rparr>)
       \<lparr>sn_id = sn_id note, sn_title = sn_title note, sn_created_at = sn_created_at note,
        sn_updated_at = sn_updated_at note, sn_event_start = sn_event_start note,
        sn_event_end = sn_event_end note, sn_event_guid = sn_event_guid note,
        sn_call_url = sn_call_url note, sn_content_markdown = sn_content_markdown note,
        sn_synced_at = now\<rparr>
       (db_notes d)\<rparr>"

definition getNote :: "db \<Rightarrow> string \<Rightarrow> StoredNote option" where
  "getNote d i = find (\<lambda>n. sn_id n = i) (db_notes d)"

text \<open>
  \<open>ORDER BY event_start DESC\<close>: SQLite compares text bytewise and sorts NULL below every
  text, so NULL comes last in descending order. SQL leaves the order among rows with
  equal keys open, and the engine yields them as its query plan meets them (along an
  index, forwards or backwards, or along the table). That order is the parameter
  \<open>ties\<close> of every query that sorts: rows with equal keys come by ascending rank, and
  rows equal in both as the table has them. Every order among rows that differ is the
  order of some ranking.
\<close>

definition order_by_desc :: "('a \<Rightarrow> nat) \<Rightarrow> ('a \<Rightarrow> string option) \<Rightarrow> 'a list \<Rightarrow> 'a list" where
  "order_by_desc ties key rows = rev (sort_key key (rev (sort_key ties rows)))"

definition getAllNotes :: "(StoredNote \<Rightarrow> nat) \<Rightarrow> db \<Rightarrow> StoredNote list" where
  "getAllNotes ties d = order_by_desc ties sn_event_start (db_notes d)"

text \<open>
  The LIKE operator of SQLite, with no ESCAPE clause: \<open>%\<close> in the pattern stands for any
  sequence of characters, \<open>_\<close> for any single character, every other character for
  itself up to ASCII case. \<open>sql_like pattern text\<close>.
\<close>

fun sql_like :: "string \<Rightarrow> string \<Rightarrow> bool" where
  "sql_like [] s = (s = [])"
| "sql_like (p # ps) [] = (p = CHR ''%'' \<and> sql_like ps [])"
| "sql_like (p # ps) (c # cs) =
     (if p = CHR ''%'' then sql_like ps (c # cs) \<or> sql_like (p # ps) cs
      else (p = CHR ''_'' \<or> lower_ascii p = lower_ascii c) \<and> sql_like ps cs)"

text \<open>A LIKE test on a nullable column: NULL LIKE p is NULL, which WHERE rejects.\<close>

definition sql_like_opt :: "string \<Rightarrow> string option \<Rightarrow> bool" where
  "sql_like_opt p v = (case v of None \<Rightarrow> False | Some s \<Rightarrow> sql_like p s)"

definition searchNotes :: "(StoredNote \<Rightarrow> nat) \<Rightarrow> db \<Rightarrow> string \<Rightarrow> StoredNote list" where
  "searchNotes ties d query =
     (let pattern = ''%'' @ query @ ''%''
      in order_by_desc ties sn_event_start
           (filter (\<lambda>n. sql_like pattern (sn_title n)
                        \<or> sql_like_opt pattern (sn_content_markdown n)) (db_notes d)))"

subsection \<open>Recordings\<close>

text \<open>
  \<open>upsertRecording now r\<close>: the insert and the update on conflict both write the
  \<open>note_id\<close> of \<open>r\<close>, a string, so the foreign key asks for a note of that id.
\<close>

definition upsertRecording :: "string \<Rightarrow> RecordingFields \<Rightarrow> db \<Rightarrow> js_error + db" where
  "upsertRecording now r d =
    (if getNote d (sr_note_id r) = None then Inl foreign_key_failed
     else Inr (d\<lparr>db_recordings :=
     upsert_row (\<lambda>old. sr_id old = sr_id r)
       (\<lambda>old. old\<lparr>sr_note_id := sr_note_id r,
                  sr_title := sr_title r,
                  sr_updated_at := sr_updated_at r,
                  sr_event_start := sr_event_start r,
                  sr_event_end := sr_event_end r,
                  sr_recording_start := sr_recording_start r,
                  sr_recording_end := sr_recording_end r,
                  sr_event_guid := sr_event_guid r,
                  sr_call_url := sr_call_url r,
                  sr_transcript_json :=
                    coalesce (sr_transcript_json r) (sr_transcript_json old),
                  sr_synced_at := now\<rparr>)
       \<lparr>sr_id = sr_id r, sr_note_id = sr_note_id r, sr_title = sr_title r,
        sr_created_at = sr_created_at r, sr_updated_at = sr_updated_at r,
        sr_event_start = sr_event_start r, sr_event_end = sr_event_end r,
        sr_recording_start = sr_recording_start r, sr_recording_end = sr_recording_end r,
        sr_event_guid = sr_event_guid r, sr_call_url = sr_call_url r,
        sr_transcript_json = sr_transcript_json r, sr_synced_at = now\<rparr>
       (db_recordings d)\<rparr>))"

definition getRecording :: "db \<Rightarrow> string \<Rightarrow> StoredRecording option" where
  "getRecording d i = find (\<lambda>r. sr_id r = i) (db_recordings d)"

subsection \<open>Action items\<close>

definition clearActionItemsForNote :: "string \<Rightarrow> db \<Rightarrow> db" where
  "clearActionItemsForNote noteId d =
     d\<lparr>db_action_items := filter (\<lambda>a. sa_note_id a \<noteq> noteId) (db_action_items d)\<rparr>"

definition insertActionItem :: "ActionItemFields \<Rightarrow> db \<Rightarrow> js_error + db" where
  "insertActionItem item d =
     (if getNote d (sa_note_id item) = None then Inl foreign_key_failed
      else (let i = next_rowid (db_action_items_seq d) (map sa_id (db_action_items d)) in
        Inr (d\<lparr>db_action_items := db_action_items d @
          [\<lparr>sa_note_id = sa_note_id item, sa_content = sa_content item,
            sa_assignee = sa_assignee item, sa_due_date = sa_due_date item,
            sa_is_completed = sa_is_completed item, sa_created_at = sa_created_at item,
            sa_id = i\<rparr>],
          db_action_items_seq := i\<rparr>)))"

text \<open>A row of \<open>getAllActionItems\<close>: the action item joined with its note.\<close>

record ActionItemRow = StoredActionItem +
  ja_note_title :: string
  ja_event_start :: "string option"

record ActionItemFilters =
  f_assignee :: "string option"
  f_is_completed :: "bool option"
  f_since :: "string option"

text \<open>
  \<open>FROM action_items a JOIN notes n ON a.note_id = n.id WHERE ...\<close>: a filter is part
  of the query when its value is truthy (for \<open>is_completed\<close>: when it is defined). A
  comparison with NULL rejects the row.
\<close>

definition getAllActionItems :: "(ActionItemRow \<Rightarrow> nat) \<Rightarrow> db \<Rightarrow> ActionItemFilters \<Rightarrow>
    ActionItemRow list" where
  "getAllActionItems ties d filters =
     order_by_desc ties ja_event_start
       (filter (\<lambda>row.
            (case f_assignee filters of
               None \<Rightarrow> True
             | Some a \<Rightarrow>
                 if truthy a then sql_like_opt (''%'' @ a @ ''%'') (sa_assignee row) else True)
          \<and> (case f_is_completed filters of
               None \<Rightarrow> True
             | Some b \<Rightarrow> sa_is_completed row = b)
          \<and> (case f_since filters of
               None \<Rightarrow> True
             | Some s \<Rightarrow>
                 if truthy s
                 then (case ja_event_start row of None \<Rightarrow> False | Some es \<Rightarrow> s \<le> es)
                 else True))
          (concat (map (\<lambda>a. map (\<lambda>n.
               \<lparr>sa_note_id = sa_note_id a, sa_content = sa_content a,
                sa_assignee = sa_assignee a, sa_due_date = sa_due_date a,
                sa_is_completed = sa_is_completed a, sa_created_at = sa_created_at a,
                sa_id = sa_id a, ja_note_title = sn_title n,
                ja_event_start = sn_event_start n\<rparr>)
             (filter (\<lambda>n. sa_note_id a = sn_id n) (db_notes d))) (db_action_items d))))"

subsection \<open>Participants\<close>

definition clearParticipantsForNote :: "string \<Rightarrow> db \<Rightarrow> db" where
  "clearParticipantsForNote noteId d =
     d\<lparr>db_participants := filter (\<lambda>p. sp_note_id p \<noteq> noteId) (db_participants d)\<rparr>"

text \<open>
  \<open>INSERT OR IGNORE\<close> under \<open>UNIQUE(note_id, email)\<close>: the statement draws the next
  AUTOINCREMENT id; a pair already in the table is left alone and no row is written, but
  the counter keeps the id that was drawn; otherwise the row is written under that id.
  \<open>OR IGNORE\<close> does not cover the foreign key: a new pair for a note that is not stored
  throws.
\<close>

definition insertParticipant :: "string \<Rightarrow> string \<Rightarrow> db \<Rightarrow> js_error + db" where
  "insertParticipant noteId email d =
     (let i = next_rowid (db_participants_seq d) (map sp_id (db_participants d)) in
      if \<exists>p \<in> set (db_participants d). sp_note_id p = noteId \<and> sp_email p = email
      then Inr (d\<lparr>db_participants_seq := i\<rparr>)
      else if getNote d noteId = None then Inl foreign_key_failed
      else Inr (d\<lparr>db_participants := db_participants d @
                    [\<lparr>sp_id = i, sp_note_id = noteId, sp_email = email\<rparr>],
                  db_participants_seq := i\<rparr>))"

text \<open>
  \<open>SELECT DISTINCT n.* FROM notes n JOIN participants p ON n.id = p.note_id
  WHERE p.email IN (...)\<close>: the join yields one row per matching pair, DISTINCT removes
  the repeats.
\<close>

definition getMeetingsByParticipants :: "(StoredNote \<Rightarrow> nat) \<Rightarrow> db \<Rightarrow> string list \<Rightarrow>
    StoredNote list" where
  "getMeetingsByParticipants ties d emails =
     (if length emails = 0 then []
      else order_by_desc ties sn_event_start
             (remdups (concat (map (\<lambda>n. map (\<lambda>p. n)
                 (filter (\<lambda>p. sn_id n = sp_note_id p \<and> sp_email p \<in> set emails)
                    (db_participants d))) (db_notes d)))))"

text \<open>
  \<open>SELECT n.* FROM notes n WHERE (SELECT COUNT(DISTINCT p.email) FROM participants p
  WHERE p.note_id = n.id AND p.email IN (...)) = ?\<close>, the last parameter bound to
  \<open>emails.length\<close>.
\<close>

definition getMeetingsWithAllParticipants :: "(StoredNote \<Rightarrow> nat) \<Rightarrow> db \<Rightarrow> string list \<Rightarrow>
    StoredNote list" where
  "getMeetingsWithAllParticipants ties d emails =
     (if length emails = 0 then []
      else order_by_desc ties sn_event_start
             (filter (\<lambda>n. length (remdups (map sp_email
                 (filter (\<lambda>p. sp_note_id p = sn_id n \<and> sp_email p \<in> set emails)
                    (db_participants d)))) = length emails) (db_notes d)))"

definition getParticipantsForNote :: "db \<Rightarrow> string \<Rightarrow> string list" where
  "getParticipantsForNote d noteId =
     map sp_email (filter (\<lambda>p. sp_note_id p = noteId) (db_participants d))"

subsection \<open>Sync status and statistics\<close>

definition getLastSyncTime :: "db \<Rightarrow> string option" where
  "getLastSyncTime d = map_option snd (find (\<lambda>kv. fst kv = ''last_sync'') (db_sync_status d))"

definition setLastSyncTime :: "string \<Rightarrow> db \<Rightarrow> db" where
  "setLastSyncTime time d = d\<lparr>db_sync_status :=
     upsert_row (\<lambda>kv. fst kv = ''last_sync'') (\<lambda>kv. (fst kv, time)) (''last_sync'', time)
       (db_sync_status d)\<rparr>"

record Stats =
  st_notes :: nat
  st_recordings :: nat
  st_action_items :: nat
  st_participants :: nat

definition getStats :: "db \<Rightarrow> Stats" where
  "getStats d = \<lparr>st_notes = length (db_notes d), st_recordings = length (db_recordings d),
     st_action_items = length (db_action_items d),
     st_participants = length (remdups (map sp_email (db_participants d)))\<rparr>"

text \<open>The content stored under a note id, \<open>None\<close> for no row or a NULL column.\<close>

definition stored_content :: "db \<Rightarrow> string \<Rightarrow> string option" where
  "stored_content d i = (case getNote d i of None \<Rightarrow> None | Some n \<Rightarrow> sn_content_markdown n)"

section \<open>JavaScript strings\<close>

text \<open>
  White space as \<open>String.prototype.trim\<close> and the class \<open>\s\<close> see it, among the code
  units below 256: tab, line feed, vertical tab, form feed, carriage return, space and
  the no-break space.
\<close>

definition js_space :: "char \<Rightarrow> bool" where
  "js_space c = (of_char c \<in> {9, 10, 11, 12, 13, 32, 160 :: nat})"

definition trim :: "string \<Rightarrow> string" where
  "trim s = rev (dropWhile js_space (rev (dropWhile js_space s)))"

text \<open>\<open>toLowerCase\<close> on code units below 256: A-Z and the capital letters of Latin-1.\<close>

definition lower_js :: "char \<Rightarrow> char" where
  "lower_js c = (let n = (of_char c :: nat) in
     if (65 \<le> n \<and> n \<le> 90) \<or> (192 \<le> n \<and> n \<le> 222 \<and> n \<noteq> 215)
     then char_of (n + 32) else c)"

definition toLowerCase :: "string \<Rightarrow> string" where
  "toLowerCase s = map lower_js s"

text \<open>\<open>s.split(c)\<close> for a one-character separator: never the empty list.\<close>

fun split_on :: "char \<Rightarrow> string \<Rightarrow> string list" where
  "split_on c [] = [[]]"
| "split_on c (x # xs) =
     (if x = c then [] # split_on c xs
      else (case split_on c xs of [] \<Rightarrow> [[x]] | w # ws \<Rightarrow> (x # w) # ws))"

definition padStart :: "nat \<Rightarrow> char \<Rightarrow> string \<Rightarrow> string" where
  "padStart n c s = replicate (n - length s) c @ s"

text \<open>\<open>s.replace(c, "")\<close> with a string pattern: the first occurrence only.\<close>

fun remove_first :: "char \<Rightarrow> string \<Rightarrow> string" where
  "remove_first c [] = []"
| "remove_first c (x # xs) = (if x = c then xs else x # remove_first c xs)"

text \<open>\<open>s.indexOf(t)\<close>, with \<open>None\<close> for -1.\<close>

fun indexOf :: "string \<Rightarrow> string \<Rightarrow> nat option" where
  "indexOf [] t = (if t = [] then Some 0 else None)"
| "indexOf (x # xs) t =
     (if take (length t) (x # xs) = t then Some 0 else map_option Suc (indexOf xs t))"

text \<open>\<open>s.substring(a, b)\<close> for \<open>a \<le> b\<close>.\<close>

definition substring :: "string \<Rightarrow> nat \<Rightarrow> nat \<Rightarrow> string" where
  "substring s a b = take (b - a) (drop a s)"

text \<open>A number in a template literal: its decimal digits.\<close>

fun show_nat :: "nat \<Rightarrow> string" where
  "show_nat n = (if n < 10 then [char_of (48 + n)]
                 else show_nat (n div 10) @ [char_of (48 + n mod 10)])"

section \<open>Regular expressions\<close>

text \<open>
  The patterns of the extractor are values of \<open>rx\<close>, run by a backtracking matcher
  with the priorities of the JavaScript engine: in a sequence the choices of the left
  part are tried in order, each with every choice of the right part; an alternative
  tries its left branch first; a greedy star tries one more round before stopping,
  a lazy star stops before trying one more round; a round that consumes nothing is
  rejected. \<open>Bol\<close> is the anchor \<open>^\<close> (no multiline flag), \<open>Grp n r\<close> the \<open>n\<close>-th capture group.
\<close>

datatype rx =
    Cls "char \<Rightarrow> bool"
  | Eps
  | Bol
  | Seq rx rx
  | Alt rx rx
  | Star rx
  | LazyStar rx
  | Grp nat rx

text \<open>
  A configuration: the index reached in the input, the input left from there, and the
  captures made so far.
\<close>

type_synonym captures = "nat \<Rightarrow> string option"
type_synonym cfg = "nat \<times> string \<times> captures"

function ms :: "rx \<Rightarrow> cfg \<Rightarrow> cfg list" where
  "ms (Cls P) (i, s, c) =
     (case s of [] \<Rightarrow> [] | x # xs \<Rightarrow> if P x then [(Suc i, xs, c)] else [])"
| "ms Eps k = [k]"
| "ms Bol (i, s, c) = (if i = 0 then [(i, s, c)] else [])"
| "ms (Seq r1 r2) k = concat (map (ms r2) (ms r1 k))"
| "ms (Alt r1 r2) k = ms r1 k @ ms r2 k"
| "ms (Star r) (i, s, c) =
     concat (map (\<lambda>k. if length (fst (snd k)) < length s then ms (Star r) k else [])
               (ms r (i, s, c))) @ [(i, s, c)]"
| "ms (LazyStar r) (i, s, c) =
     (i, s, c) #
     concat (map (\<lambda>k. if length (fst (snd k)) < length s then ms (LazyStar r) k else [])
               (ms r (i, s, c)))"
| "ms (Grp n r) (i, s, c) =
     map (\<lambda>k. (fst k, fst (snd k), (snd (snd k))(n \<mapsto> take (fst k - i) s)))
       (ms r (i, s, c))"
  by pat_completeness auto
termination
  by (relation "measures [\<lambda>(r, k). size r, \<lambda>(r, k). length (fst (snd k))]") auto

text \<open>
  \<open>s.match(r)\<close> without the global flag: the first index, from the left, at which the
  pattern matches, with the first choice of the matcher there; \<open>None\<close> for \<open>null\<close>.
  The result keeps the captures.
\<close>

fun rx_search :: "rx \<Rightarrow> nat \<Rightarrow> string \<Rightarrow> captures option" where
  "rx_search r i [] =
     (case ms r (i, [], Map.empty) of [] \<Rightarrow> None | k # ks \<Rightarrow> Some (snd (snd k)))"
| "rx_search r i (x # xs) =
     (case ms r (i, x # xs, Map.empty) of
        [] \<Rightarrow> rx_search r (Suc i) xs
      | k # ks \<Rightarrow> Some (snd (snd k)))"

definition rx_match :: "string \<Rightarrow> rx \<Rightarrow> captures option" where
  "rx_match s r = rx_search r 0 s"

text \<open>
  \<open>m[n]\<close> used as a string: a group that took no part in the match is \<open>undefined\<close>, and
  calling a method on it throws.
\<close>

definition group :: "captures \<Rightarrow> nat \<Rightarrow> js_error + string" where
  "group m n = (case m n of
       None \<Rightarrow> Inl (TypeError ''Cannot read properties of undefined'')
     | Some v \<Rightarrow> Inr v)"

subsection \<open>Building blocks\<close>

definition Chr :: "char \<Rightarrow> rx" where
  "Chr c = Cls (\<lambda>x. x = c)"

text \<open>A letter under the flag \<open>i\<close>: either case; code units from 128 on stand for
  themselves only.\<close>

definition ChrI :: "char \<Rightarrow> rx" where
  "ChrI c = Cls (\<lambda>x. lower_ascii x = lower_ascii c)"

definition OneOf :: "string \<Rightarrow> rx" where
  "OneOf cs = Cls (\<lambda>x. x \<in> set cs)"

fun Seqs :: "rx list \<Rightarrow> rx" where
  "Seqs [] = Eps"
| "Seqs [r] = r"
| "Seqs (r # rs) = Seq r (Seqs rs)"

definition Lit :: "string \<Rightarrow> rx" where
  "Lit s = Seqs (map Chr s)"

definition LitI :: "string \<Rightarrow> rx" where
  "LitI s = Seqs (map ChrI s)"

definition Opt :: "rx \<Rightarrow> rx" where
  "Opt r = Alt r Eps"

definition Plus :: "rx \<Rightarrow> rx" where
  "Plus r = Seq r (Star r)"

definition is_digit :: "char \<Rightarrow> bool" where
  "is_digit c = (48 \<le> (of_char c :: nat) \<and> (of_char c :: nat) \<le> 57)"

definition is_word :: "char \<Rightarrow> bool" where
  "is_word c = (let n = (of_char c :: nat) in
     (48 \<le> n \<and> n \<le> 57) \<or> (65 \<le> n \<and> n \<le> 90) \<or> (97 \<le> n \<and> n \<le> 122) \<or> n = 95)"

text \<open>The dot: any character but a line terminator.\<close>

definition is_dot :: "char \<Rightarrow> bool" where
  "is_dot c = (of_char c \<notin> {10, 13 :: nat})"

definition Digit :: rx where "Digit = Cls is_digit"
definition Word :: rx where "Word = Cls is_word"
definition Space :: rx where "Space = Cls js_space"
definition Dot :: rx where "Dot = Cls is_dot"

section \<open>The text extractor\<close>

record ParsedActionItem =
  pa_content :: string
  pa_assignee :: "string option"
  pa_due_date :: "string option"
  pa_is_completed :: bool

subsection \<open>The patterns\<close>

text \<open>\<^verbatim>\<open>/@(\w+)/\<close>\<close>

definition rx_mention :: rx where
  "rx_mention = Seqs [Chr CHR ''@'', Grp 1 (Plus Word)]"

text \<open>\<^verbatim>\<open>(?:due|by|deadline)\s*:?\s*\<close>, under the flag \<open>i\<close>\<close>

definition rx_due_keyword :: "rx list" where
  "rx_due_keyword =
     [Alt (LitI ''due'') (Alt (LitI ''by'') (LitI ''deadline'')),
      Star Space, Opt (Chr CHR '':''), Star Space]"

text \<open>\<^verbatim>\<open>/(?:due|by|deadline)\s*:?\s*(\d{4}-\d{2}-\d{2})/i\<close>\<close>

definition rx_iso_date :: rx where
  "rx_iso_date = Seqs (rx_due_keyword @
     [Grp 1 (Seqs [Digit, Digit, Digit, Digit, Chr CHR ''-'', Digit, Digit,
                   Chr CHR ''-'', Digit, Digit])])"

text \<open>\<^verbatim>\<open>/(?:due|by|deadline)\s*:?\s*(\d{1,2}\/\d{1,2}\/\d{2,4})/i\<close>\<close>

definition rx_us_date :: rx where
  "rx_us_date = Seqs (rx_due_keyword @
     [Grp 1 (Seqs [Digit, Opt Digit, Chr CHR ''/'', Digit, Opt Digit, Chr CHR ''/'',
                   Digit, Digit, Opt (Seq Digit (Opt Digit))])])"

text \<open>\<^verbatim>\<open>/^\s*[-*]\s*\[([ xX])\]\s*(.+)/\<close>\<close>

definition rx_checkbox :: rx where
  "rx_checkbox = Seqs [Bol, Star Space, OneOf ''-*'', Star Space, Chr CHR ''['',
     Grp 1 (OneOf '' xX''), Chr CHR '']'', Star Space, Grp 2 (Plus Dot)]"

text \<open>\<^verbatim>\<open>/^\s*[-*]?\s*(?:Action\s*Item|Action|TODO|To-Do|To Do)\s*:\s*(.+)/i\<close>\<close>

definition rx_action :: rx where
  "rx_action = Seqs [Bol, Star Space, Opt (OneOf ''-*''), Star Space,
     Alt (Seqs [LitI ''Action'', Star Space, LitI ''Item''])
       (Alt (LitI ''Action'') (Alt (LitI ''TODO'') (Alt (LitI ''To-Do'') (LitI ''To Do'')))),
     Star Space, Chr CHR '':'', Star Space, Grp 1 (Plus Dot)]"

text \<open>\<^verbatim>\<open>/^\s*[-*]\s*(@\w+[\w\s]*?)\s*[-:]\s*(.+)/\<close>\<close>

definition rx_mention_line :: rx where
  "rx_mention_line = Seqs [Bol, Star Space, OneOf ''-*'', Star Space,
     Grp 1 (Seqs [Chr CHR ''@'', Plus Word, LazyStar (Cls (\<lambda>x. is_word x \<or> js_space x))]),
     Star Space, OneOf ''-:'', Star Space, Grp 2 (Plus Dot)]"

subsection \<open>parseAssigneeAndDueDate\<close>

text \<open>\<open>parts[i]\<close> used as a string: out of range it is \<open>undefined\<close>, and the method
  call on it throws.\<close>

definition part :: "string list \<Rightarrow> nat \<Rightarrow> js_error + string" where
  "part parts i = (if i < length parts then Inr (parts ! i)
     else Inl (TypeError ''Cannot read properties of undefined''))"

definition us_to_iso :: "string \<Rightarrow> js_error + string" where
  "us_to_iso us =
     (let parts = split_on CHR ''/'' us in
      case part parts 0 of Inl e \<Rightarrow> Inl e | Inr p0 \<Rightarrow>
      (let month = padStart 2 CHR ''0'' p0 in
       case part parts 1 of Inl e \<Rightarrow> Inl e | Inr p1 \<Rightarrow>
       (let day = padStart 2 CHR ''0'' p1 in
        case part parts 2 of Inl e \<Rightarrow> Inl e | Inr p2 \<Rightarrow>
        (let year = (if length p2 = 2 then ''20'' @ p2 else p2)
         in Inr (year @ ''-'' @ month @ ''-'' @ day)))))"

text \<open>The result is the pair \<open>(assignee, dueDate)\<close>.\<close>

definition parseAssigneeAndDueDate :: "string \<Rightarrow> js_error + (string option \<times> string option)" where
  "parseAssigneeAndDueDate text =
     (let mentionMatch = rx_match text rx_mention;
          assignee = (case mentionMatch of None \<Rightarrow> None | Some m \<Rightarrow> m 1);
          isoDateMatch = rx_match text rx_iso_date;
          dueDate = (case isoDateMatch of None \<Rightarrow> None | Some m \<Rightarrow> m 1);
          usDateMatch = rx_match text rx_us_date
      in case (dueDate, usDateMatch) of
           (None, Some m) \<Rightarrow>
             (case group m 1 of Inl e \<Rightarrow> Inl e
              | Inr us \<Rightarrow> (case us_to_iso us of Inl e \<Rightarrow> Inl e
                            | Inr v \<Rightarrow> Inr (assignee, Some v)))
         | _ \<Rightarrow> Inr (assignee, dueDate))"

subsection \<open>extractActionItems\<close>

text \<open>One line of the loop: the item pushed for it, if any.\<close>

definition extract_line :: "string \<Rightarrow> js_error + ParsedActionItem option" where
  "extract_line line =
     (case rx_match line rx_checkbox of
        Some checkboxMatch \<Rightarrow>
          (case group checkboxMatch 1 of Inl e \<Rightarrow> Inl e | Inr g1 \<Rightarrow>
           case group checkboxMatch 2 of Inl e \<Rightarrow> Inl e | Inr g2 \<Rightarrow>
           (let isCompleted = (toLowerCase g1 = ''x''); itemContent = trim g2 in
            case parseAssigneeAndDueDate itemContent of Inl e \<Rightarrow> Inl e
            | Inr (assignee, dueDate) \<Rightarrow>
                Inr (Some \<lparr>pa_content = itemContent, pa_assignee = assignee,
                           pa_due_date = dueDate, pa_is_completed = isCompleted\<rparr>)))
      | None \<Rightarrow>
     (case rx_match line rx_action of
        Some actionMatch \<Rightarrow>
          (case group actionMatch 1 of Inl e \<Rightarrow> Inl e | Inr g1 \<Rightarrow>
           (let itemContent = trim g1 in
            case parseAssigneeAndDueDate itemContent of Inl e \<Rightarrow> Inl e
            | Inr (assignee, dueDate) \<Rightarrow>
                Inr (Some \<lparr>pa_content = itemContent, pa_assignee = assignee,
                           pa_due_date = dueDate, pa_is_completed = False\<rparr>)))
      | None \<Rightarrow>
     (case rx_match line rx_mention_line of
        Some mentionMatch \<Rightarrow>
          (case group mentionMatch 1 of Inl e \<Rightarrow> Inl e | Inr g1 \<Rightarrow>
           case group mentionMatch 2 of Inl e \<Rightarrow> Inl e | Inr g2 \<Rightarrow>
           (let assignee = trim (remove_first CHR ''@'' g1); itemContent = trim g2 in
            case parseAssigneeAndDueDate itemContent of Inl e \<Rightarrow> Inl e
            | Inr (a, dueDate) \<Rightarrow>
                Inr (Some \<lparr>pa_content = ''@'' @ assignee @ '': '' @ itemContent,
                           pa_assignee = Some assignee,
                           pa_due_date = dueDate, pa_is_completed = False\<rparr>)))
      | None \<Rightarrow> Inr None)))"

fun extract_lines :: "string list \<Rightarrow> js_error + ParsedActionItem list" where
  "extract_lines [] = Inr []"
| "extract_lines (line # lines) =
     (case extract_line line of
        Inl e \<Rightarrow> Inl e
      | Inr item \<Rightarrow>
          (case extract_lines lines of
             Inl e \<Rightarrow> Inl e
           | Inr items \<Rightarrow> Inr ((case item of None \<Rightarrow> [] | Some i \<Rightarrow> [i]) @ items)))"

definition extractActionItems :: "string \<Rightarrow> js_error + ParsedActionItem list" where
  "extractActionItems content = extract_lines (split_on (CHR 0x0A) content)"

section \<open>The remote client (class FellowClient)\<close>

record SpeechSegment =
  seg_speaker :: string
  seg_text :: string
  seg_start_time :: real
  seg_end_time :: real

record Transcript =
  tr_language_code :: string
  tr_speech_segments :: "SpeechSegment list"

text \<open>
  \<open>note_id\<close> is declared a string, so the one falsy value it can take is the empty
  string.
\<close>

record Recording =
  r_id :: string
  r_title :: string
  r_note_id :: string
  r_created_at :: string
  r_updated_at :: string
  r_event_start :: "string option"
  r_event_end :: "string option"
  r_recording_start :: "string option"
  r_recording_end :: "string option"
  r_event_guid :: "string option"
  r_call_url :: "string option"
  r_transcript :: "Transcript option"

record Note =
  n_id :: string
  n_title :: string
  n_created_at :: string
  n_updated_at :: string
  n_event_start :: "string option"
  n_event_end :: "string option"
  n_event_guid :: "string option"
  n_call_url :: "string option"
  n_recording_ids :: "string list option"
  n_content_markdown :: "string option"
  n_event_attendees :: "string list option"

record PageInfo =
  pi_cursor :: "string option"
  pi_page_size :: nat

record 'a Page =
  page_info :: PageInfo
  page_data :: "'a list"

text \<open>
  The JSON body of a list request: the filters and the include flags that were set (an
  empty object is left out of the body, so the empty list stands for both), and the
  pagination block.
\<close>

record RequestBody =
  rb_filters :: "(string \<times> string) list"
  rb_include :: "(string \<times> bool) list"
  rb_cursor :: "string option"
  rb_page_size :: nat

record ListOptions =
  lo_title :: "string option"
  lo_created_at_start :: "string option"
  lo_created_at_end :: "string option"
  lo_updated_at_start :: "string option"
  lo_updated_at_end :: "string option"
  lo_event_guid :: "string option"
  lo_channel_id :: "string option"
  lo_include_transcript :: "bool option"
  lo_include_content :: "bool option"
  lo_include_attendees :: "bool option"
  lo_cursor :: "string option"
  lo_page_size :: "nat option"

text \<open>The filters object: a key is set when its option is truthy.\<close>

definition build_filters :: "ListOptions \<Rightarrow> (string \<times> string) list" where
  "build_filters options =
     concat (map (\<lambda>(k, v). case v of None \<Rightarrow> [] | Some s \<Rightarrow> if truthy s then [(k, s)] else [])
       [(''title'', lo_title options),
        (''created_at_start'', lo_created_at_start options),
        (''created_at_end'', lo_created_at_end options),
        (''updated_at_start'', lo_updated_at_start options),
        (''updated_at_end'', lo_updated_at_end options),
        (''event_guid'', lo_event_guid options),
        (''channel_id'', lo_channel_id options)])"

definition listRecordings_body :: "ListOptions \<Rightarrow> RequestBody" where
  "listRecordings_body options =
     \<lparr>rb_filters = build_filters options,
      rb_include = (if lo_include_transcript options = Some True then [(''transcript'', True)] else []),
      rb_cursor = lo_cursor options,
      rb_page_size = (case lo_page_size options of None \<Rightarrow> 20 | Some n \<Rightarrow> n)\<rparr>"

definition listNotes_body :: "ListOptions \<Rightarrow> RequestBody" where
  "listNotes_body options =
     \<lparr>rb_filters = build_filters options,
      rb_include =
        (if lo_include_content options = Some True then [(''content_markdown'', True)] else []) @
        (if lo_include_attendees options = Some True then [(''event_attendees'', True)] else []),
      rb_cursor = lo_cursor options,
      rb_page_size = (case lo_page_size options of None \<Rightarrow> 20 | Some n \<Rightarrow> n)\<rparr>"

text \<open>
  What lies outside the program: the remote service behind \<open>request\<close>, the clock
  behind \<open>new Date()\<close> and \<open>JSON.stringify\<close>. The program is sequential, so the
  outside world is indexed by a tick that counts the requests and clock readings made
  so far: \<open>env_notes t method endpoint body\<close> is what the request made at tick \<open>t\<close>
  returns, \<open>Inl\<close> when \<open>fetch\<close> throws, the status is not ok or the body does not parse.
\<close>

record env =
  env_notes :: "nat \<Rightarrow> string \<Rightarrow> string \<Rightarrow> RequestBody \<Rightarrow> js_error + Note Page"
  env_recordings :: "nat \<Rightarrow> string \<Rightarrow> string \<Rightarrow> RequestBody \<Rightarrow> js_error + Recording Page"
  env_clock :: "nat \<Rightarrow> string"
  env_stringify :: "Transcript \<Rightarrow> string"

text \<open>The running program: the tick and the database.\<close>

type_synonym world = "nat \<times> db"

definition listNotes :: "env \<Rightarrow> nat \<Rightarrow> ListOptions \<Rightarrow> js_error + Note Page" where
  "listNotes E t options = env_notes E t ''POST'' ''/notes'' (listNotes_body options)"

definition listRecordings :: "env \<Rightarrow> nat \<Rightarrow> ListOptions \<Rightarrow> js_error + Recording Page" where
  "listRecordings E t options =
     env_recordings E t ''POST'' ''/recordings'' (listRecordings_body options)"

definition no_options :: ListOptions where
  "no_options = \<lparr>lo_title = None, lo_created_at_start = None, lo_created_at_end = None,
     lo_updated_at_start = None, lo_updated_at_end = None, lo_event_guid = None,
     lo_channel_id = None, lo_include_transcript = None, lo_include_content = None,
     lo_include_attendees = None, lo_cursor = None, lo_page_size = None\<rparr>"

section \<open>The sync orchestrator\<close>

record SyncResult =
  notes_synced :: nat
  recordings_synced :: nat
  action_items_found :: nat
  participants_synced :: nat

record SyncOptions =
  since :: "string option"
  includeTranscripts :: "bool option"

text \<open>The options of the two list calls of a pass, at a cursor.\<close>

definition notes_request :: "SyncOptions \<Rightarrow> string option \<Rightarrow> ListOptions" where
  "notes_request options cursor =
     no_options\<lparr>lo_updated_at_start := since options,
       lo_include_content := Some True, lo_include_attendees := Some True,
       lo_cursor := cursor, lo_page_size := Some 50\<rparr>"

definition recordings_request :: "SyncOptions \<Rightarrow> string option \<Rightarrow> ListOptions" where
  "recordings_request options cursor =
     no_options\<lparr>lo_updated_at_start := since options,
       lo_include_transcript :=
         Some (case includeTranscripts options of None \<Rightarrow> False | Some b \<Rightarrow> b),
       lo_cursor := cursor, lo_page_size := Some 50\<rparr>"

text \<open>
  The loop over the action items parsed from one note. The clock is read for
  \<open>created_at\<close> before the insert runs; an insert that throws ends the loop.
\<close>

fun insert_items :: "env \<Rightarrow> string \<Rightarrow> ParsedActionItem list \<Rightarrow> SyncResult \<times> world \<Rightarrow>
    (js_error + SyncResult) \<times> world" where
  "insert_items E noteId [] (res, w) = (Inr res, w)"
| "insert_items E noteId (item # items) (res, (t, d)) =
     (case insertActionItem
             \<lparr>sa_note_id = noteId, sa_content = pa_content item,
              sa_assignee = pa_assignee item, sa_due_date = pa_due_date item,
              sa_is_completed = pa_is_completed item, sa_created_at = env_clock E t\<rparr> d of
        Inl e \<Rightarrow> (Inl e, (Suc t, d))
      | Inr d1 \<Rightarrow>
          insert_items E noteId items
            (res\<lparr>action_items_found := Suc (action_items_found res)\<rparr>, (Suc t, d1)))"

text \<open>The loop over the attendees of one note.\<close>

fun insert_attendees :: "string \<Rightarrow> string list \<Rightarrow> SyncResult \<times> db \<Rightarrow>
    (js_error + SyncResult) \<times> db" where
  "insert_attendees noteId [] (res, d) = (Inr res, d)"
| "insert_attendees noteId (email # emails) (res, d) =
     (if truthy email \<and> truthy (trim email)
      then (case insertParticipant noteId (trim email) d of
              Inl e \<Rightarrow> (Inl e, d)
            | Inr d1 \<Rightarrow>
                insert_attendees noteId emails
                  (res\<lparr>participants_synced := Suc (participants_synced res)\<rparr>, d1))
      else insert_attendees noteId emails (res, d))"

text \<open>The object handed to \<open>upsertNote\<close>: \<open>undefined\<close> becomes \<open>null\<close>.\<close>

definition note_fields :: "Note \<Rightarrow> NoteFields" where
  "note_fields note =
     \<lparr>sn_id = n_id note, sn_title = n_title note,
      sn_created_at = n_created_at note, sn_updated_at = n_updated_at note,
      sn_event_start = n_event_start note, sn_event_end = n_event_end note,
      sn_event_guid = n_event_guid note, sn_call_url = n_call_url note,
      sn_content_markdown = n_content_markdown note\<rparr>"

text \<open>The block under \<open>if (note.content_markdown)\<close>.\<close>

definition sync_action_items :: "env \<Rightarrow> Note \<Rightarrow> SyncResult \<times> world \<Rightarrow>
    (js_error + SyncResult) \<times> world" where
  "sync_action_items E note rw =
     (case rw of (res, (t, d)) \<Rightarrow>
      if truthy_opt (n_content_markdown note) then
        (let d2 = clearActionItemsForNote (n_id note) d in
         case extractActionItems (case n_content_markdown note of None \<Rightarrow> [] | Some c \<Rightarrow> c) of
           Inl e \<Rightarrow> (Inl e, (t, d2))
         | Inr actionItems \<Rightarrow> insert_items E (n_id note) actionItems (res, (t, d2)))
      else (Inr res, (t, d)))"

text \<open>The block under \<open>if (note.event_attendees && note.event_attendees.length > 0)\<close>.\<close>

definition sync_participants :: "Note \<Rightarrow> SyncResult \<times> db \<Rightarrow> (js_error + SyncResult) \<times> db" where
  "sync_participants note rd =
     (case rd of (res, d) \<Rightarrow>
      case n_event_attendees note of
        None \<Rightarrow> (Inr res, d)
      | Some attendees \<Rightarrow>
          if length attendees > 0
          then insert_attendees (n_id note) attendees
                 (res, clearParticipantsForNote (n_id note) d)
          else (Inr res, d))"

text \<open>The body of the loop over the notes of a page.\<close>

definition sync_note :: "env \<Rightarrow> Note \<Rightarrow> SyncResult \<times> world \<Rightarrow> (js_error + SyncResult) \<times> world" where
  "sync_note E note rw =
     (case rw of (res, (t, d)) \<Rightarrow>
      let d1 = upsertNote (env_clock E t) (note_fields note) d;
          res1 = res\<lparr>notes_synced := Suc (notes_synced res)\<rparr>
      in case sync_action_items E note (res1, (Suc t, d1)) of
           (Inl e, w) \<Rightarrow> (Inl e, w)
         | (Inr res2, (t2, d3)) \<Rightarrow>
             (case sync_participants note (res2, d3) of
                (out, d4) \<Rightarrow> (out, (t2, d4))))"

fun sync_notes :: "env \<Rightarrow> Note list \<Rightarrow> SyncResult \<times> world \<Rightarrow> (js_error + SyncResult) \<times> world" where
  "sync_notes E [] (res, w) = (Inr res, w)"
| "sync_notes E (note # rest) rw =
     (case sync_note E note rw of
        (Inl e, w) \<Rightarrow> (Inl e, w)
      | (Inr res, w) \<Rightarrow> sync_notes E rest (res, w))"

text \<open>
  The first \<open>do ... while (cursor)\<close> loop. Nothing bounds the number of pages, so the
  loop takes fuel, one unit per page: \<open>None\<close> is the loop still running when the fuel is
  spent.
\<close>

fun notes_loop :: "env \<Rightarrow> nat \<Rightarrow> SyncOptions \<Rightarrow> string option \<Rightarrow> SyncResult \<times> world \<Rightarrow>
    ((js_error + SyncResult) \<times> world) option" where
  "notes_loop E 0 options cursor rw = None"
| "notes_loop E (Suc fuel) options cursor (res, (t, d)) =
     (case listNotes E t (notes_request options cursor) of
        Inl e \<Rightarrow> Some (Inl e, (Suc t, d))
      | Inr notesResp \<Rightarrow>
          (case sync_notes E (page_data notesResp) (res, (Suc t, d)) of
             (Inl e, w) \<Rightarrow> Some (Inl e, w)
           | (Inr res1, w) \<Rightarrow>
               if truthy_opt (pi_cursor (page_info notesResp))
               then notes_loop E fuel options (pi_cursor (page_info notesResp)) (res1, w)
               else Some (Inr res1, w)))"

text \<open>The object handed to \<open>upsertRecording\<close>.\<close>

definition recording_fields :: "env \<Rightarrow> Recording \<Rightarrow> RecordingFields" where
  "recording_fields E recording =
     \<lparr>sr_id = r_id recording, sr_note_id = r_note_id recording,
      sr_title = r_title recording, sr_created_at = r_created_at recording,
      sr_updated_at = r_updated_at recording,
      sr_event_start = r_event_start recording,
      sr_event_end = r_event_end recording,
      sr_recording_start = r_recording_start recording,
      sr_recording_end = r_recording_end recording,
      sr_event_guid = r_event_guid recording,
      sr_call_url = r_call_url recording,
      sr_transcript_json = map_option (env_stringify E) (r_transcript recording)\<rparr>"

text \<open>
  The body of the loop over the recordings of a page: \<open>continue\<close> under the guard, else
  the upsert, which reads the clock and may throw, and the count.
\<close>

definition sync_recording :: "env \<Rightarrow> Recording \<Rightarrow> SyncResult \<times> world \<Rightarrow>
    (js_error + SyncResult) \<times> world" where
  "sync_recording E recording rw =
     (case rw of (res, (t, d)) \<Rightarrow>
      if truthy (r_note_id recording) \<and> getNote d (r_note_id recording) = None
      then (Inr res, (t, d))
      else (case upsertRecording (env_clock E t) (recording_fields E recording) d of
              Inl e \<Rightarrow> (Inl e, (Suc t, d))
            | Inr d1 \<Rightarrow>
                (Inr (res\<lparr>recordings_synced := Suc (recordings_synced res)\<rparr>), (Suc t, d1))))"

fun sync_recordings :: "env \<Rightarrow> Recording list \<Rightarrow> SyncResult \<times> world \<Rightarrow>
    (js_error + SyncResult) \<times> world" where
  "sync_recordings E [] (res, w) = (Inr res, w)"
| "sync_recordings E (recording # rest) rw =
     (case sync_recording E recording rw of
        (Inl e, w) \<Rightarrow> (Inl e, w)
      | (Inr res, w) \<Rightarrow> sync_recordings E rest (res, w))"

fun recordings_loop :: "env \<Rightarrow> nat \<Rightarrow> SyncOptions \<Rightarrow> string option \<Rightarrow> SyncResult \<times> world \<Rightarrow>
    ((js_error + SyncResult) \<times> world) option" where
  "recordings_loop E 0 options cursor rw = None"
| "recordings_loop E (Suc fuel) options cursor (res, (t, d)) =
     (case listRecordings E t (recordings_request options cursor) of
        Inl e \<Rightarrow> Some (Inl e, (Suc t, d))
      | Inr recordingsResp \<Rightarrow>
          (case sync_recordings E (page_data recordingsResp) (res, (Suc t, d)) of
             (Inl e, w) \<Rightarrow> Some (Inl e, w)
           | (Inr res1, w) \<Rightarrow>
               if truthy_opt (pi_cursor (page_info recordingsResp))
               then recordings_loop E fuel options
                      (pi_cursor (page_info recordingsResp)) (res1, w)
               else Some (Inr res1, w)))"

definition zero_result :: SyncResult where
  "zero_result = \<lparr>notes_synced = 0, recordings_synced = 0, action_items_found = 0,
     participants_synced = 0\<rparr>"

text \<open>
  \<open>syncNotesFromApi\<close>: the notes loop, the recordings loop, then the watermark. An
  exception leaves the function at once, with the database as it is by then.
\<close>

definition syncNotesFromApi :: "env \<Rightarrow> nat \<Rightarrow> SyncOptions \<Rightarrow> world \<Rightarrow>
    ((js_error + SyncResult) \<times> world) option" where
  "syncNotesFromApi E fuel options w =
     (case notes_loop E fuel options None (zero_result, w) of
        None \<Rightarrow> None
      | Some (Inl e, w1) \<Rightarrow> Some (Inl e, w1)
      | Some (Inr res1, w1) \<Rightarrow>
          (case recordings_loop E fuel options None (res1, w1) of
             None \<Rightarrow> None
           | Some (Inl e, w2) \<Rightarrow> Some (Inl e, w2)
           | Some (Inr res2, (t2, d2)) \<Rightarrow>
               Some (Inr res2, (Suc t2, setLastSyncTime (env_clock E t2) d2))))"

definition performIncrementalSync :: "env \<Rightarrow> nat \<Rightarrow> world \<Rightarrow>
    ((js_error + SyncResult) \<times> world) option" where
  "performIncrementalSync E fuel w =
     (let lastSync = getLastSyncTime (snd w) in
      if \<not> truthy_opt lastSync
      then syncNotesFromApi E fuel \<lparr>since = None, includeTranscripts = None\<rparr> w
      else syncNotesFromApi E fuel \<lparr>since = lastSync, includeTranscripts = None\<rparr> w)"

section \<open>Tool handlers\<close>

record ToolResult =
  tr_text :: string
  tr_isError :: bool

definition nl :: string where
  "nl = [CHR 0x0A]"

text \<open>The \<open>catch\<close> around every handler: an exception becomes an error result.\<close>

definition caught :: "js_error \<Rightarrow> ToolResult" where
  "caught e = \<lparr>tr_text = ''Error: '' @ error_message e, tr_isError = True\<rparr>"

text \<open>A value in a template literal: \<open>null\<close> and \<open>undefined\<close> print as their names.\<close>

definition show_nullable :: "string option \<Rightarrow> string" where
  "show_nullable v = (case v of None \<Rightarrow> ''null'' | Some s \<Rightarrow> s)"

definition show_optional :: "string option \<Rightarrow> string" where
  "show_optional v = (case v of None \<Rightarrow> ''undefined'' | Some s \<Rightarrow> s)"

text \<open>\<open>v ?? "N/A"\<close>\<close>

definition or_NA :: "string option \<Rightarrow> string" where
  "or_NA v = (case v of None \<Rightarrow> ''N/A'' | Some s \<Rightarrow> s)"

subsection \<open>sync\_meetings\<close>

record SyncMeetingsArgs =
  arg_force :: "bool option"
  arg_include_transcripts :: "bool option"

text \<open>The sync that the handler runs: a full pass under \<open>force\<close>, else the incremental
  entry point.\<close>

definition sync_meetings_pass :: "env \<Rightarrow> nat \<Rightarrow> SyncMeetingsArgs \<Rightarrow> world \<Rightarrow>
    ((js_error + SyncResult) \<times> world) option" where
  "sync_meetings_pass E fuel args w =
     (if arg_force args = Some True
      then syncNotesFromApi E fuel
             \<lparr>since = None, includeTranscripts = arg_include_transcripts args\<rparr> w
      else performIncrementalSync E fuel w)"

definition sync_meetings :: "env \<Rightarrow> nat \<Rightarrow> SyncMeetingsArgs \<Rightarrow> world \<Rightarrow>
    (ToolResult \<times> world) option" where
  "sync_meetings E fuel args w =
     (case sync_meetings_pass E fuel args w of
        None \<Rightarrow> None
      | Some (Inl e, w1) \<Rightarrow> Some (caught e, w1)
      | Some (Inr result, w1) \<Rightarrow>
          (let stats = getStats (snd w1) in
           Some (\<lparr>tr_text =
              ''# Sync Complete'' @ nl @ nl @ ''Mode: ''
              @ (if arg_force args = Some True then ''Full'' else ''Incremental'') @ nl @ nl
              @ ''## This Sync:'' @ nl
              @ ''- Notes synced: '' @ show_nat (notes_synced result) @ nl
              @ ''- Recordings synced: '' @ show_nat (recordings_synced result) @ nl
              @ ''- Action items found: '' @ show_nat (action_items_found result) @ nl
              @ ''- Participants synced: '' @ show_nat (participants_synced result) @ nl @ nl
              @ ''## Database Totals:'' @ nl
              @ ''- Total notes: '' @ show_nat (st_notes stats) @ nl
              @ ''- Total recordings: '' @ show_nat (st_recordings stats) @ nl
              @ ''- Total action items: '' @ show_nat (st_action_items stats) @ nl
              @ ''- Unique participants: '' @ show_nat (st_participants stats) @ nl @ nl
              @ ''Last sync: ''
              @ show_nullable (getLastSyncTime (snd w1)),
              tr_isError = False\<rparr>, w1)))"

subsection \<open>get\_all\_action\_items\<close>

record ActionItemArgs =
  arg_assignee :: "string option"
  arg_show_completed :: "bool option"
  arg_since :: "string option"

text \<open>\<open>byMeeting\<close>: a Map keeps its keys in the order of their first insertion.\<close>

definition map_push :: "string \<Rightarrow> 'a \<Rightarrow> (string \<times> 'a list) list \<Rightarrow> (string \<times> 'a list) list" where
  "map_push key item m =
     (if key \<in> fst ` set m
      then map (\<lambda>kv. if fst kv = key then (fst kv, snd kv @ [item]) else kv) m
      else m @ [(key, [item])])"

definition group_by_meeting :: "ActionItemRow list \<Rightarrow> (string \<times> ActionItemRow list) list" where
  "group_by_meeting items = foldl (\<lambda>m item. map_push (sa_note_id item) item m) [] items"

definition render_item :: "ActionItemRow \<Rightarrow> string" where
  "render_item item =
     ''- '' @ (if sa_is_completed item then ''[x]'' else ''[ ]'') @ '' '' @ sa_content item
     @ (case sa_assignee item of None \<Rightarrow> []
        | Some a \<Rightarrow> if truthy a then '' (@'' @ a @ '')'' else [])
     @ (case sa_due_date item of None \<Rightarrow> []
        | Some v \<Rightarrow> if truthy v then '' [due: '' @ v @ '']'' else [])
     @ nl"

text \<open>One meeting of the listing; \<open>items[0]\<close> of an empty group would be \<open>undefined\<close>.\<close>

definition render_meeting :: "ActionItemRow list \<Rightarrow> js_error + string" where
  "render_meeting items =
     (case items of
        [] \<Rightarrow> Inl (TypeError ''Cannot read properties of undefined'')
      | firstItem # rest \<Rightarrow>
          Inr (''## '' @ ja_note_title firstItem @ nl
               @ ''Date: '' @ or_NA (ja_event_start firstItem) @ nl @ nl
               @ concat (map render_item items) @ nl))"

fun render_meetings :: "(string \<times> ActionItemRow list) list \<Rightarrow> js_error + string" where
  "render_meetings [] = Inr []"
| "render_meetings (kv # rest) =
     (case render_meeting (snd kv) of
        Inl e \<Rightarrow> Inl e
      | Inr out \<Rightarrow> (case render_meetings rest of Inl e \<Rightarrow> Inl e | Inr outs \<Rightarrow> Inr (out @ outs)))"

text \<open>The warning sign and its variation selector (U+26A0 U+FE0F), as UTF-8.\<close>

definition warning_sign :: string where
  "warning_sign = [CHR 0xE2, CHR 0x9A, CHR 0xA0, CHR 0xEF, CHR 0xB8, CHR 0x8F]"

text \<open>
  The handler: the incremental sync inside its own \<open>try\<close>, whose \<open>catch\<close> keeps the
  message in \<open>syncError\<close>; then the query on the cache and the text.
\<close>

definition get_all_action_items :: "env \<Rightarrow> (ActionItemRow \<Rightarrow> nat) \<Rightarrow> nat \<Rightarrow> ActionItemArgs \<Rightarrow>
    world \<Rightarrow> (ToolResult \<times> world) option" where
  "get_all_action_items E ties fuel args w =
     (case performIncrementalSync E fuel w of
        None \<Rightarrow> None
      | Some (outcome, w1) \<Rightarrow>
          (let syncError = (case outcome of Inl e \<Rightarrow> Some (error_message e) | Inr r \<Rightarrow> None);
               syncResult = (case outcome of Inl e \<Rightarrow> None | Inr r \<Rightarrow> Some r);
               actionItems = getAllActionItems ties (snd w1)
                 \<lparr>f_assignee = arg_assignee args,
                  f_is_completed =
                    (if arg_show_completed args = Some True then None else Some False),
                  f_since = arg_since args\<rparr>
           in if length actionItems = 0 then
                (let msg = ''No action items found matching the criteria.''
                       @ (if truthy_opt syncError
                          then nl @ nl @ warning_sign @ '' Sync error: '' @ show_nullable syncError
                          else (case syncResult of
                                  None \<Rightarrow> []
                                | Some r \<Rightarrow> nl @ nl @ ''Sync completed: ''
                                    @ show_nat (notes_synced r) @ '' notes, ''
                                    @ show_nat (action_items_found r)
                                    @ '' action items found.''));
                     stats = getStats (snd w1)
                 in Some (\<lparr>tr_text = msg @ nl @ nl @ ''DB stats: ''
                             @ show_nat (st_notes stats) @ '' notes, ''
                             @ show_nat (st_action_items stats) @ '' action items total.'',
                           tr_isError = False\<rparr>, w1))
              else
                (let byMeeting = group_by_meeting actionItems;
                     output = ''# All Action Items'' @ nl @ nl
                       @ ''Total: '' @ show_nat (length actionItems) @ '' items from ''
                       @ show_nat (length byMeeting) @ '' meetings'' @ nl
                       @ (if truthy_opt (arg_assignee args)
                          then ''Filtered by assignee: '' @ show_optional (arg_assignee args) @ nl
                          else [])
                       @ (if truthy_opt (arg_since args)
                          then ''Since: '' @ show_optional (arg_since args) @ nl else [])
                       @ ''Showing: ''
                       @ (if arg_show_completed args = Some True then ''all''
                          else ''incomplete only'') @ nl @ nl
                 in case render_meetings byMeeting of
                      Inl e \<Rightarrow> Some (caught e, w1)
                    | Inr listing \<Rightarrow>
                        Some (\<lparr>tr_text = output @ listing, tr_isError = False\<rparr>, w1))))"

subsection \<open>search\_cached\_notes\<close>

text \<open>The snippet shown for a note whose content holds the query literally.\<close>

definition snippet_line :: "string \<Rightarrow> string \<Rightarrow> string" where
  "snippet_line query content =
     (case indexOf (toLowerCase content) (toLowerCase query) of
        None \<Rightarrow> []
      | Some matchIndex \<Rightarrow>
          (let start = matchIndex - 50;
               end_ix = min (length content) (matchIndex + length query + 50);
               snippet = substring content start end_ix;
               snippet1 = (if start > 0 then ''...'' @ snippet else snippet);
               snippet2 = (if end_ix < length content then snippet1 @ ''...'' else snippet1)
           in ''- Snippet: '' @ map (\<lambda>c. if c = CHR 0x0A then CHR '' '' else c) snippet2 @ nl))"

definition render_found :: "string \<Rightarrow> StoredNote \<Rightarrow> string" where
  "render_found query note =
     ''## '' @ sn_title note @ nl
     @ ''- Date: '' @ or_NA (sn_event_start note) @ nl
     @ ''- Note ID: '' @ sn_id note @ nl
     @ (case sn_content_markdown note of
          None \<Rightarrow> []
        | Some content \<Rightarrow> if truthy content then snippet_line query content else [])
     @ nl"

definition quote :: string where
  "quote = [CHR 0x22]"

definition search_cached_notes :: "(StoredNote \<Rightarrow> nat) \<Rightarrow> db \<Rightarrow> string \<Rightarrow> ToolResult" where
  "search_cached_notes ties d query =
     (if falsy query \<or> length (trim query) = 0
      then \<lparr>tr_text = ''Please provide a search query.'', tr_isError = False\<rparr>
      else (let found = searchNotes ties d query in
            if length found = 0
            then \<lparr>tr_text = ''No meetings found matching: '' @ quote @ query @ quote,
                  tr_isError = False\<rparr>
            else \<lparr>tr_text = ''# Search Results for: '' @ quote @ query @ quote @ nl @ nl
                    @ ''Found '' @ show_nat (length found) @ '' meetings:'' @ nl @ nl
                    @ concat (map (render_found query) found),
                  tr_isError = False\<rparr>))"

subsection \<open>get\_meetings\_by\_participants\<close>

fun join_with :: "string \<Rightarrow> string list \<Rightarrow> string" where
  "join_with sep [] = []"
| "join_with sep [x] = x"
| "join_with sep (x # xs) = x @ sep @ join_with sep xs"

definition get_meetings_by_participants :: "(StoredNote \<Rightarrow> nat) \<Rightarrow> db \<Rightarrow> string list \<Rightarrow>
    bool option \<Rightarrow> ToolResult" where
  "get_meetings_by_participants ties d emails require_all =
     (if length emails = 0
      then \<lparr>tr_text = ''Please provide at least one email address.'', tr_isError = False\<rparr>
      else (let meetings = (if require_all = Some True
                            then getMeetingsWithAllParticipants ties d emails
                            else getMeetingsByParticipants ties d emails);
                mode = (if require_all = Some True then ''all of'' else ''any of'')
            in if length meetings = 0
               then \<lparr>tr_text = ''No meetings found with '' @ mode @ '': ''
                        @ join_with '', '' emails, tr_isError = False\<rparr>
               else \<lparr>tr_text = ''# Meetings with '' @ mode @ '': '' @ join_with '', '' emails
                        @ nl @ nl
                        @ ''Found '' @ show_nat (length meetings) @ '' meetings:'' @ nl @ nl
                        @ concat (map (\<lambda>meeting.
                            ''## '' @ sn_title meeting @ nl
                            @ ''- Date: '' @ or_NA (sn_event_start meeting) @ nl
                            @ ''- Note ID: '' @ sn_id meeting @ nl
                            @ ''- Participants: ''
                            @ show_nat (length (getParticipantsForNote d (sn_id meeting))) @ nl
                            @ nl) meetings),
                     tr_isError = False\<rparr>))"

section \<open>Notions used in the properties\<close>

text \<open>An orphan: a stored recording whose \<open>note_id\<close> is the id of no stored note.\<close>

definition orphan :: "db \<Rightarrow> StoredRecording \<Rightarrow> bool" where
  "orphan d r = (getNote d (sr_note_id r) = None)"

text \<open>The attendee entries of a note for which \<open>insertParticipant\<close> is called, trimmed.\<close>

definition synced_emails :: "Note \<Rightarrow> string list" where
  "synced_emails note =
     (case n_event_attendees note of
        None \<Rightarrow> []
      | Some attendees \<Rightarrow> map trim (filter (\<lambda>e. truthy e \<and> truthy (trim e)) attendees))"

text \<open>The note has a list of attendees that is not empty: its participants are synced.\<close>

definition attendees_listed :: "Note \<Rightarrow> bool" where
  "attendees_listed note =
     (case n_event_attendees note of None \<Rightarrow> False | Some attendees \<Rightarrow> length attendees > 0)"

text \<open>The participant rows of a note, and those of the other notes.\<close>

definition rows_of :: "db \<Rightarrow> string \<Rightarrow> StoredParticipant list" where
  "rows_of d i = filter (\<lambda>p. sp_note_id p = i) (db_participants d)"

definition rows_of_others :: "db \<Rightarrow> string \<Rightarrow> StoredParticipant list" where
  "rows_of_others d i = filter (\<lambda>p. sp_note_id p \<noteq> i) (db_participants d)"

text \<open>What a step of the recordings phase keeps.\<close>

definition recs_phase :: "db \<Rightarrow> db \<Rightarrow> bool" where
  "recs_phase d d' = (db_notes d' = db_notes d \<and> db_sync_status d' = db_sync_status d
     \<and> db_participants d' = db_participants d
     \<and> (\<forall>y \<in> set (db_recordings d'). orphan d' y \<longrightarrow> y \<in> set (db_recordings d)))"

subsection \<open>The rounds of a pass\<close>

text \<open>
  \<open>notes_round E options w0 n ns (cursor, res, w)\<close>: started in the world \<open>w0\<close>, the
  loop over the pages of notes comes to the head of its round \<open>n\<close> (the first is round
  0) with this cursor, these counts and this world, having synced the notes \<open>ns\<close>, in
  that order. Every round before it was answered with a page, synced the page without
  an exception and was handed a cursor.
\<close>

inductive notes_round :: "env \<Rightarrow> SyncOptions \<Rightarrow> world \<Rightarrow> nat \<Rightarrow> Note list \<Rightarrow>
    string option \<times> SyncResult \<times> world \<Rightarrow> bool"
  for E :: env and options :: SyncOptions and w0 :: world where
  start: "notes_round E options w0 0 [] (None, zero_result, w0)"
| step: "notes_round E options w0 n ns (cursor, res, (t, d)) \<Longrightarrow>
     listNotes E t (notes_request options cursor) = Inr page \<Longrightarrow>
     sync_notes E (page_data page) (res, (Suc t, d)) = (Inr res1, w1) \<Longrightarrow>
     truthy_opt (pi_cursor (page_info page)) \<Longrightarrow>
     notes_round E options w0 (Suc n) (ns @ page_data page)
       (pi_cursor (page_info page), res1, w1)"

text \<open>
  The same for the loop over the pages of recordings, which starts with the counts
  \<open>res0\<close> and in the world \<open>w0\<close> that the loop over the notes has left.
\<close>

inductive recordings_round :: "env \<Rightarrow> SyncOptions \<Rightarrow> SyncResult \<Rightarrow> world \<Rightarrow> nat \<Rightarrow>
    string option \<times> SyncResult \<times> world \<Rightarrow> bool"
  for E :: env and options :: SyncOptions and res0 :: SyncResult and w0 :: world where
  start: "recordings_round E options res0 w0 0 (None, res0, w0)"
| step: "recordings_round E options res0 w0 n (cursor, res, (t, d)) \<Longrightarrow>
     listRecordings E t (recordings_request options cursor) = Inr page \<Longrightarrow>
     sync_recordings E (page_data page) (res, (Suc t, d)) = (Inr res1, w1) \<Longrightarrow>
     truthy_opt (pi_cursor (page_info page)) \<Longrightarrow>
     recordings_round E options res0 w0 (Suc n) (pi_cursor (page_info page), res1, w1)"

subsection \<open>What a pattern can match\<close>

text \<open>
  The words of a pattern, for reasoning about every input at once: \<open>lang r\<close> holds
  every string that a match of \<open>r\<close> can consume (the anchor consumes nothing),
  \<open>groups r\<close> the capture groups of \<open>r\<close> with their patterns, \<open>sure r\<close> the groups
  that take part in every match of \<open>r\<close>.
\<close>

inductive_set kleene :: "string set \<Rightarrow> string set" for L :: "string set" where
  nil: "[] \<in> kleene L"
| app: "u \<in> L \<Longrightarrow> v \<in> kleene L \<Longrightarrow> u @ v \<in> kleene L"

fun lang :: "rx \<Rightarrow> string set" where
  "lang (Cls P) = {[x] | x. P x}"
| "lang Eps = {[]}"
| "lang Bol = {[]}"
| "lang (Seq a b) = {u @ v | u v. u \<in> lang a \<and> v \<in> lang b}"
| "lang (Alt a b) = lang a \<union> lang b"
| "lang (Star r) = kleene (lang r)"
| "lang (LazyStar r) = kleene (lang r)"
| "lang (Grp n r) = lang r"

fun groups :: "rx \<Rightarrow> (nat \<times> rx) set" where
  "groups (Cls P) = {}"
| "groups Eps = {}"
| "groups Bol = {}"
| "groups (Seq a b) = groups a \<union> groups b"
| "groups (Alt a b) = groups a \<union> groups b"
| "groups (Star r) = groups r"
| "groups (LazyStar r) = groups r"
| "groups (Grp n r) = insert (n, r) (groups r)"

fun sure :: "rx \<Rightarrow> nat set" where
  "sure (Cls P) = {}"
| "sure Eps = {}"
| "sure Bol = {}"
| "sure (Seq a b) = sure a \<union> sure b"
| "sure (Alt a b) = sure a \<inter> sure b"
| "sure (Star r) = {}"
| "sure (LazyStar r) = {}"
| "sure (Grp n r) = insert n (sure r)"

subsection \<open>Dates\<close>

text \<open>
  The shape of every due date that the extractor produces: three runs of digits joined
  by hyphens, the year of three or four digits, the month and the day of two.
\<close>

definition date_shaped :: "string \<Rightarrow> bool" where
  "date_shaped v =
     (case split_on CHR ''-'' v of
        [y, m, dd] \<Rightarrow> list_all is_digit y \<and> list_all is_digit m \<and> list_all is_digit dd
           \<and> (length y = 3 \<or> length y = 4) \<and> length m = 2 \<and> length dd = 2
      | _ \<Rightarrow> False)"




section \<open>Sample data\<close>

definition note_a :: NoteFields where
  "note_a = \<lparr>sn_id = ''n1'', sn_title = ''Weekly planning'',
     sn_created_at = ''2024-02-01T09:00:00Z'', sn_updated_at = ''2024-02-01T10:00:00Z'',
     sn_event_start = Some ''2024-02-01T09:00:00Z'', sn_event_end = None,
     sn_event_guid = None, sn_call_url = None,
     sn_content_markdown = Some ''hello''\<rparr>"

definition note_a_partial :: NoteFields where
  "note_a_partial = note_a\<lparr>sn_content_markdown := None\<rparr>"

definition stored_abc :: StoredNote where
  "stored_abc = \<lparr>sn_id = ''n7'', sn_title = ''abc'',
     sn_created_at = ''2024-02-01T09:00:00Z'', sn_updated_at = ''2024-02-01T10:00:00Z'',
     sn_event_start = None, sn_event_end = None, sn_event_guid = None, sn_call_url = None,
     sn_content_markdown = Some ''Budget review'', sn_synced_at = ''2024-02-02T00:00:00Z''\<rparr>"

definition db_abc :: db where
  "db_abc = empty_db\<lparr>db_notes := [stored_abc]\<rparr>"

text \<open>A cache of one meeting attended by \<open>a@x.com\<close>, with one open action item.\<close>

definition db_one :: db where
  "db_one = empty_db\<lparr>
     db_notes := [stored_abc],
     db_action_items :=
       [\<lparr>sa_note_id = ''n7'', sa_content = ''Send the budget'', sa_assignee = None,
         sa_due_date = None, sa_is_completed = False,
         sa_created_at = ''2024-02-02T00:00:00Z'', sa_id = 1\<rparr>],
     db_action_items_seq := 1,
     db_participants := [\<lparr>sp_id = 1, sp_note_id = ''n7'', sp_email = ''a@x.com''\<rparr>],
     db_participants_seq := 1,
     db_sync_status := [(''last_sync'', ''2024-02-02T00:00:00Z'')]\<rparr>"

text \<open>A remote service that is down: every request fails.\<close>

definition env_down :: env where
  "env_down = \<lparr>
     env_notes = (\<lambda>t method endpoint body. Inl (ApiError ''Fellow API error (503): down'')),
     env_recordings = (\<lambda>t method endpoint body. Inl (ApiError ''Fellow API error (503): down'')),
     env_clock = (\<lambda>t. ''2024-03-01T00:00:00.000Z''),
     env_stringify = (\<lambda>tr. ''{}'')\<rparr>"

definition no_args :: ActionItemArgs where
  "no_args = \<lparr>arg_assignee = None, arg_show_completed = None, arg_since = None\<rparr>"

text \<open>
  A fixture for the remote service: two pages of notes (one note each), one page of
  recordings, the second of which names a note that the service never lists. A request
  with a filter is answered by an empty page.
\<close>

definition note_one :: Note where
  "note_one = \<lparr>n_id = ''n1'', n_title = ''Weekly planning'',
     n_created_at = ''2024-02-01T09:00:00Z'', n_updated_at = ''2024-02-01T10:00:00Z'',
     n_event_start = Some ''2024-02-01T09:00:00Z'', n_event_end = None,
     n_event_guid = None, n_call_url = None, n_recording_ids = None,
     n_content_markdown = Some ''- [ ] Review PR by 3/5/24'',
     n_event_attendees = Some [''a@x.com'', '' b@x.com '']\<rparr>"

definition note_two :: Note where
  "note_two = \<lparr>n_id = ''n2'', n_title = ''Retro'',
     n_created_at = ''2024-02-03T09:00:00Z'', n_updated_at = ''2024-02-03T10:00:00Z'',
     n_event_start = None, n_event_end = None,
     n_event_guid = None, n_call_url = None, n_recording_ids = None,
     n_content_markdown = None, n_event_attendees = None\<rparr>"

definition recording_one :: Recording where
  "recording_one = \<lparr>r_id = ''r1'', r_title = ''Weekly planning'', r_note_id = ''n1'',
     r_created_at = ''2024-02-01T09:00:00Z'', r_updated_at = ''2024-02-01T10:00:00Z'',
     r_event_start = None, r_event_end = None, r_recording_start = None,
     r_recording_end = None, r_event_guid = None, r_call_url = None,
     r_transcript = None\<rparr>"

definition recording_orphan :: Recording where
  "recording_orphan = recording_one\<lparr>r_id := ''r2'', r_note_id := ''n9''\<rparr>"

definition env_fixture :: env where
  "env_fixture = \<lparr>
     env_notes = (\<lambda>t method endpoint body.
        if rb_filters body \<noteq> []
        then Inr \<lparr>page_info = \<lparr>pi_cursor = None, pi_page_size = 50\<rparr>, page_data = []\<rparr>
        else if rb_cursor body = None
        then Inr \<lparr>page_info = \<lparr>pi_cursor = Some ''p2'', pi_page_size = 50\<rparr>,
                  page_data = [note_one]\<rparr>
        else Inr \<lparr>page_info = \<lparr>pi_cursor = None, pi_page_size = 50\<rparr>,
                  page_data = [note_two]\<rparr>),
     env_recordings = (\<lambda>t method endpoint body.
        if rb_filters body \<noteq> []
        then Inr \<lparr>page_info = \<lparr>pi_cursor = None, pi_page_size = 50\<rparr>, page_data = []\<rparr>
        else Inr \<lparr>page_info = \<lparr>pi_cursor = None, pi_page_size = 50\<rparr>,
                  page_data = [recording_one, recording_orphan]\<rparr>),
     env_clock = (\<lambda>t. ''2024-03-01T00:00:00.00'' @ show_nat t @ ''Z''),
     env_stringify = (\<lambda>tr. ''{}'')\<rparr>"

text \<open>The store after a pass over the fixture from the empty store.\<close>

definition db_fixture :: db where
  "db_fixture = \<lparr>
     db_notes =
       [\<lparr>sn_id = ''n1'', sn_title = ''Weekly planning'',
         sn_created_at = ''2024-02-01T09:00:00Z'', sn_updated_at = ''2024-02-01T10:00:00Z'',
         sn_event_start = Some ''2024-02-01T09:00:00Z'', sn_event_end = None,
         sn_event_guid = None, sn_call_url = None,
         sn_content_markdown = Some ''- [ ] Review PR by 3/5/24'',
         sn_synced_at = ''2024-03-01T00:00:00.001Z''\<rparr>,
        \<lparr>sn_id = ''n2'', sn_title = ''Retro'',
         sn_created_at = ''2024-02-03T09:00:00Z'', sn_updated_at = ''2024-02-03T10:00:00Z'',
         sn_event_start = None, sn_event_end = None,
         sn_event_guid = None, sn_call_url = None,
         sn_content_markdown = None, sn_synced_at = ''2024-03-01T00:00:00.004Z''\<rparr>],
     db_recordings =
       [\<lparr>sr_id = ''r1'', sr_note_id = ''n1'', sr_title = ''Weekly planning'',
         sr_created_at = ''2024-02-01T09:00:00Z'', sr_updated_at = ''2024-02-01T10:00:00Z'',
         sr_event_start = None, sr_event_end = None, sr_recording_start = None,
         sr_recording_end = None, sr_event_guid = None, sr_call_url = None,
         sr_transcript_json = None, sr_synced_at = ''2024-03-01T00:00:00.006Z''\<rparr>],
     db_action_items =
       [\<lparr>sa_note_id = ''n1'', sa_content = ''Review PR by 3/5/24'', sa_assignee = None,
         sa_due_date = Some ''2024-03-05'', sa_is_completed = False,
         sa_created_at = ''2024-03-01T00:00:00.002Z'', sa_id = 1\<rparr>],
     db_action_items_seq = 1,
     db_participants =
       [\<lparr>sp_id = 1, sp_note_id = ''n1'', sp_email = ''a@x.com''\<rparr>,
        \<lparr>sp_id = 2, sp_note_id = ''n1'', sp_email = ''b@x.com''\<rparr>],
     db_participants_seq = 2,
     db_sync_status = [(''last_sync'', ''2024-03-01T00:00:00.007Z'')]\<rparr>"

text \<open>A service whose only note lists one attendee twice.\<close>

definition note_dup :: Note where
  "note_dup = note_two\<lparr>n_event_attendees := Some [''a@x.com'', ''a@x.com'']\<rparr>"

definition env_dup :: env where
  "env_dup = \<lparr>
     env_notes = (\<lambda>t method endpoint body.
        Inr \<lparr>page_info = \<lparr>pi_cursor = None, pi_page_size = 50\<rparr>, page_data = [note_dup]\<rparr>),
     env_recordings = (\<lambda>t method endpoint body.
        Inr \<lparr>page_info = \<lparr>pi_cursor = None, pi_page_size = 50\<rparr>, page_data = []\<rparr>),
     env_clock = (\<lambda>t. ''2024-03-01T00:00:00.00'' @ show_nat t @ ''Z''),
     env_stringify = (\<lambda>tr. ''{}'')\<rparr>"

text \<open>The store after a pass over that service from the empty store.\<close>

definition db_dup :: db where
  "db_dup = \<lparr>
     db_notes =
       [\<lparr>sn_id = ''n2'', sn_title = ''Retro'',
         sn_created_at = ''2024-02-03T09:00:00Z'', sn_updated_at = ''2024-02-03T10:00:00Z'',
         sn_event_start = None, sn_event_end = None,
         sn_event_guid = None, sn_call_url = None,
         sn_content_markdown = None, sn_synced_at = ''2024-03-01T00:00:00.001Z''\<rparr>],
     db_recordings = [], db_action_items = [], db_action_items_seq = 0,
     db_participants = [\<lparr>sp_id = 1, sp_note_id = ''n2'', sp_email = ''a@x.com''\<rparr>],
     db_participants_seq = 2,
     db_sync_status = [(''last_sync'', ''2024-03-01T00:00:00.003Z'')]\<rparr>"

text \<open>
  A service that fails on the second page of notes, and the store when it does, after
  a pass from the empty store.
\<close>

definition env_flaky :: env where
  "env_flaky = \<lparr>
     env_notes = (\<lambda>t method endpoint body.
        if rb_cursor body = None
        then Inr \<lparr>page_info = \<lparr>pi_cursor = Some ''p2'', pi_page_size = 50\<rparr>,
                  page_data = [note_one]\<rparr>
        else Inl (ApiError ''Fellow API error (502): bad gateway'')),
     env_recordings = (\<lambda>t method endpoint body.
        Inr \<lparr>page_info = \<lparr>pi_cursor = None, pi_page_size = 50\<rparr>, page_data = []\<rparr>),
     env_clock = (\<lambda>t. ''2024-03-01T00:00:00.00'' @ show_nat t @ ''Z''),
     env_stringify = (\<lambda>tr. ''{}'')\<rparr>"

definition db_first_page :: db where
  "db_first_page = \<lparr>
     db_notes =
       [\<lparr>sn_id = ''n1'', sn_title = ''Weekly planning'',
         sn_created_at = ''2024-02-01T09:00:00Z'', sn_updated_at = ''2024-02-01T10:00:00Z'',
         sn_event_start = Some ''2024-02-01T09:00:00Z'', sn_event_end = None,
         sn_event_guid = None, sn_call_url = None,
         sn_content_markdown = Some ''- [ ] Review PR by 3/5/24'',
         sn_synced_at = ''2024-03-01T00:00:00.001Z''\<rparr>],
     db_recordings = [],
     db_action_items =
       [\<lparr>sa_note_id = ''n1'', sa_content = ''Review PR by 3/5/24'', sa_assignee = None,
         sa_due_date = Some ''2024-03-05'', sa_is_completed = False,
         sa_created_at = ''2024-03-01T00:00:00.002Z'', sa_id = 1\<rparr>],
     db_action_items_seq = 1,
     db_participants =
       [\<lparr>sp_id = 1, sp_note_id = ''n1'', sp_email = ''a@x.com''\<rparr>,
        \<lparr>sp_id = 2, sp_note_id = ''n1'', sp_email = ''b@x.com''\<rparr>],
     db_participants_seq = 2,
     db_sync_status = []\<rparr>"

text \<open>
  A service with one page of notes that fails on the second page of recordings, and
  the store when it does.
\<close>

definition env_norec :: env where
  "env_norec = \<lparr>
     env_notes = (\<lambda>t method endpoint body.
        Inr \<lparr>page_info = \<lparr>pi_cursor = None, pi_page_size = 50\<rparr>, page_data = [note_one]\<rparr>),
     env_recordings = (\<lambda>t method endpoint body.
        if rb_cursor body = None
        then Inr \<lparr>page_info = \<lparr>pi_cursor = Some ''q2'', pi_page_size = 50\<rparr>,
                  page_data = [recording_one]\<rparr>
        else Inl (ApiError ''Fellow API error (502): bad gateway'')),
     env_clock = (\<lambda>t. ''2024-03-01T00:00:00.00'' @ show_nat t @ ''Z''),
     env_stringify = (\<lambda>tr. ''{}'')\<rparr>"

definition db_first_recording :: db where
  "db_first_recording = db_first_page\<lparr>db_recordings :=
       [\<lparr>sr_id = ''r1'', sr_note_id = ''n1'', sr_title = ''Weekly planning'',
         sr_created_at = ''2024-02-01T09:00:00Z'', sr_updated_at = ''2024-02-01T10:00:00Z'',
         sr_event_start = None, sr_event_end = None, sr_recording_start = None,
         sr_recording_end = None, sr_event_guid = None, sr_call_url = None,
         sr_transcript_json = None, sr_synced_at = ''2024-03-01T00:00:00.004Z''\<rparr>]\<rparr>"



definition full_options :: SyncOptions where
  "full_options = \<lparr>since = None, includeTranscripts = None\<rparr>"

section \<open>Properties of the store\<close>

lemma find_upsert_row_same:
  assumes "\<And>x. same x \<Longrightarrow> same (upd x)" and "same new"
  shows "find same (upsert_row same upd new xs) =
         Some (case find same xs of None \<Rightarrow> new | Some x \<Rightarrow> upd x)"
  using assms by (induction xs) auto

lemma getNote_upsertNote_same:
  "getNote (upsertNote now note d) (sn_id note) =
     Some (case getNote d (sn_id note) of
             None \<Rightarrow> \<lparr>sn_id = sn_id note, sn_title = sn_title note,
                      sn_created_at = sn_created_at note, sn_updated_at = sn_updated_at note,
                      sn_event_start = sn_event_start note, sn_event_end = sn_event_end note,
                      sn_event_guid = sn_event_guid note, sn_call_url = sn_call_url note,
                      sn_content_markdown = sn_content_markdown note, sn_synced_at = now\<rparr>
           | Some old \<Rightarrow> old\<lparr>sn_title := sn_title note,
                      sn_updated_at := sn_updated_at note,
                      sn_event_start := sn_event_start note,
                      sn_event_end := sn_event_end note,
                      sn_event_guid := sn_event_guid note,
                      sn_call_url := sn_call_url note,
                      sn_content_markdown :=
                        coalesce (sn_content_markdown note) (sn_content_markdown old),
                      sn_synced_at := now\<rparr>)"
  unfolding getNote_def upsertNote_def
  by (simp add: find_upsert_row_same)

lemma stored_content_upsertNote:
  "stored_content (upsertNote now note d) (sn_id note) =
     coalesce (sn_content_markdown note) (stored_content d (sn_id note))"
  unfolding stored_content_def
  by (simp add: getNote_upsertNote_same coalesce_def split: option.splits)

text \<open>
  Claim C1. Upserting a note and then upserting the same id again with
  \<open>content_markdown\<close> absent leaves the stored content as the first upsert left it; an
  upsert stores the supplied content exactly when one is supplied and otherwise keeps
  the stored one, so content that is stored is never turned into NULL.
\<close>

theorem upsertNote_retains_content:
  "(sn_id nb = sn_id na \<and> sn_content_markdown nb = None \<longrightarrow>
      stored_content (upsertNote tb nb (upsertNote ta na d)) (sn_id na) =
      stored_content (upsertNote ta na d) (sn_id na))
   \<and> (sn_content_markdown n = Some c \<longrightarrow>
        stored_content (upsertNote t n d) (sn_id n) = Some c)
   \<and> (sn_content_markdown n = None \<longrightarrow>
        stored_content (upsertNote t n d) (sn_id n) = stored_content d (sn_id n))
   \<and> (stored_content d (sn_id n) \<noteq> None \<longrightarrow>
        stored_content (upsertNote t n d) (sn_id n) \<noteq> None)"
proof -
  have a: "sn_id nb = sn_id na \<Longrightarrow> sn_content_markdown nb = None \<Longrightarrow>
      stored_content (upsertNote tb nb (upsertNote ta na d)) (sn_id na) =
      stored_content (upsertNote ta na d) (sn_id na)"
    using stored_content_upsertNote [of tb nb "upsertNote ta na d"]
    by (simp add: coalesce_def)
  have b: "sn_content_markdown n = Some c \<Longrightarrow>
        stored_content (upsertNote t n d) (sn_id n) = Some c"
    by (simp add: stored_content_upsertNote coalesce_def)
  have c: "sn_content_markdown n = None \<Longrightarrow>
        stored_content (upsertNote t n d) (sn_id n) = stored_content d (sn_id n)"
    by (simp add: stored_content_upsertNote coalesce_def)
  have e: "stored_content d (sn_id n) \<noteq> None \<Longrightarrow>
        stored_content (upsertNote t n d) (sn_id n) \<noteq> None"
    by (simp add: stored_content_upsertNote coalesce_def split: option.splits)
  from a b c e show ?thesis by blast
qed

theorem upsertNote_retains_content_witness:
  "sn_id note_a_partial = sn_id note_a \<and> sn_content_markdown note_a_partial = None
   \<and> sn_content_markdown note_a = Some ''hello''
   \<and> stored_content (upsertNote ''t1'' note_a empty_db) (sn_id note_a) \<noteq> None
   \<and> stored_content (upsertNote ''t1'' note_a empty_db) (sn_id note_a) = Some ''hello''
   \<and> stored_content (upsertNote ''t2'' note_a_partial (upsertNote ''t1'' note_a empty_db))
         (sn_id note_a) = Some ''hello''"
proof -
  have h: "sn_id note_a_partial = sn_id note_a" "sn_content_markdown note_a_partial = None"
    "sn_content_markdown note_a = Some ''hello''"
    by (simp_all add: note_a_partial_def note_a_def)
  have s: "stored_content empty_db (sn_id note_a) = None"
    by (simp add: stored_content_def getNote_def empty_db_def)
  from upsertNote_retains_content [where nb = note_a_partial and na = note_a
      and tb = "''t2''" and ta = "''t1''" and d = empty_db and n = note_a
      and c = "''hello''" and t = "''t1''"] h s
  show ?thesis by simp
qed

section \<open>Properties of the participant queries\<close>

lemma set_order_by_desc: "set (order_by_desc ties key rows) = set rows"
  by (simp add: order_by_desc_def)

lemma matching_emails:
  "set (map sp_email (filter (\<lambda>p. sp_note_id p = i \<and> sp_email p \<in> set emails)
          (db_participants d))) = set emails \<inter> set (getParticipantsForNote d i)"
  by (auto simp: getParticipantsForNote_def)

text \<open>The all-participants query, for any list of emails that is not empty.\<close>

lemma getMeetingsWithAllParticipants_set:
  assumes "emails \<noteq> []"
  shows "set (getMeetingsWithAllParticipants ties d emails) =
     {n \<in> set (db_notes d).
        card (set emails \<inter> set (getParticipantsForNote d (sn_id n))) = length emails}"
proof -
  have c: "length (remdups (map sp_email
             (filter (\<lambda>p. sp_note_id p = i \<and> sp_email p \<in> set emails) (db_participants d))))
           = card (set emails \<inter> set (getParticipantsForNote d i))" for i
    unfolding length_remdups_card_conv matching_emails ..
  from assms show ?thesis
    unfolding getMeetingsWithAllParticipants_def c by (simp add: set_order_by_desc)
qed

text \<open>
  For a list that names no email twice this is the set of notes with a participant
  row for every email of the list.
\<close>

lemma getMeetingsWithAllParticipants_distinct:
  assumes "emails \<noteq> []" and "distinct emails"
  shows "set (getMeetingsWithAllParticipants ties d emails) =
     {n \<in> set (db_notes d). set emails \<subseteq> set (getParticipantsForNote d (sn_id n))}"
proof -
  have "card (set emails \<inter> P) = length emails \<longleftrightarrow> set emails \<subseteq> P" for P :: "string set"
  proof
    assume a: "card (set emails \<inter> P) = length emails"
    from assms(2) have "card (set emails) = length emails" by (rule distinct_card)
    with a have "card (set emails \<inter> P) = card (set emails)" by simp
    moreover have "set emails \<inter> P \<subseteq> set emails" by blast
    ultimately have "set emails \<inter> P = set emails" by (intro card_subset_eq) simp_all
    then show "set emails \<subseteq> P" by blast
  next
    assume "set emails \<subseteq> P"
    then have "set emails \<inter> P = set emails" by blast
    with assms(2) show "card (set emails \<inter> P) = length emails" by (simp add: distinct_card)
  qed
  then show ?thesis unfolding getMeetingsWithAllParticipants_set [OF assms(1)] by simp
qed

lemma getMeetingsByParticipants_set:
  assumes "emails \<noteq> []"
  shows "set (getMeetingsByParticipants ties d emails) =
     {n \<in> set (db_notes d). set emails \<inter> set (getParticipantsForNote d (sn_id n)) \<noteq> {}}"
proof -
  have j: "set (concat (map (\<lambda>n. map (\<lambda>p. n) (filter (Q n) ps)) ns)) =
      {n \<in> set ns. \<exists>p \<in> set ps. Q n p}"
    for Q :: "StoredNote \<Rightarrow> StoredParticipant \<Rightarrow> bool" and ps ns
    by (induction ns) auto
  have m: "(\<exists>p \<in> set (db_participants d). i = sp_note_id p \<and> sp_email p \<in> set emails)
      \<longleftrightarrow> set emails \<inter> set (getParticipantsForNote d i) \<noteq> {}" for i
    unfolding getParticipantsForNote_def by auto
  from assms have "getMeetingsByParticipants ties d emails =
      order_by_desc ties sn_event_start
        (remdups (concat (map (\<lambda>n. map (\<lambda>p. n)
           (filter (\<lambda>p. sn_id n = sp_note_id p \<and> sp_email p \<in> set emails)
              (db_participants d))) (db_notes d))))"
    by (simp add: getMeetingsByParticipants_def)
  then have "set (getMeetingsByParticipants ties d emails) =
      set (concat (map (\<lambda>n. map (\<lambda>p. n)
           (filter (\<lambda>p. sn_id n = sp_note_id p \<and> sp_email p \<in> set emails)
              (db_participants d))) (db_notes d)))"
    by (simp only: set_order_by_desc set_remdups)
  also have "\<dots> = {n \<in> set (db_notes d).
      \<exists>p \<in> set (db_participants d). sn_id n = sp_note_id p \<and> sp_email p \<in> set emails}"
    by (rule j)
  also have "\<dots> = {n \<in> set (db_notes d).
      set emails \<inter> set (getParticipantsForNote d (sn_id n)) \<noteq> {}}"
    unfolding m ..
  finally show ?thesis .
qed

text \<open>Every note of the all-participants query is a note of the any-participant query.\<close>

lemma getMeetingsWithAllParticipants_subset:
  "set (getMeetingsWithAllParticipants ties d emails) \<subseteq> set (getMeetingsByParticipants ties d emails)"
proof (cases "emails = []")
  case True
  then show ?thesis by (simp add: getMeetingsWithAllParticipants_def)
next
  case False
  have "A \<noteq> {}" if "card A = length emails" for A :: "string set"
  proof
    assume "A = {}"
    with that False show False by simp
  qed
  then show ?thesis
    unfolding getMeetingsWithAllParticipants_set [OF False] getMeetingsByParticipants_set [OF False]
    by blast
qed

section \<open>Properties of the extractor\<close>

subsection \<open>The matcher and the words of a pattern\<close>

lemma ms_sound:
  "k' \<in> set (ms r k) \<Longrightarrow>
     \<exists>w. fst (snd k) = w @ fst (snd k') \<and> fst k' = fst k + length w \<and> w \<in> lang r"
proof (induction r k arbitrary: k' rule: ms.induct)
  case (1 P i s c)
  then show ?case by (cases s) (auto split: if_splits)
next
  case (2 k)
  then show ?case by simp
next
  case (3 i s c)
  then show ?case by (auto split: if_splits)
next
  case (4 r1 r2 k)
  from "4.prems" obtain k1 where k1: "k1 \<in> set (ms r1 k)" "k' \<in> set (ms r2 k1)" by auto
  from "4.IH"(1) [OF k1(1)] obtain u where
    u: "fst (snd k) = u @ fst (snd k1)" "fst k1 = fst k + length u" "u \<in> lang r1" by blast
  from "4.IH"(2) [OF k1(1) k1(2)] obtain v where
    v: "fst (snd k1) = v @ fst (snd k')" "fst k' = fst k1 + length v" "v \<in> lang r2" by blast
  from u v have "fst (snd k) = (u @ v) @ fst (snd k')" "fst k' = fst k + length (u @ v)"
    "u @ v \<in> lang (Seq r1 r2)" by auto
  then show ?case by blast
next
  case (5 r1 r2 k)
  from "5.prems" have "k' \<in> set (ms r1 k) \<or> k' \<in> set (ms r2 k)" by simp
  then show ?case
  proof
    assume "k' \<in> set (ms r1 k)"
    from "5.IH"(1) [OF this] show ?thesis by auto
  next
    assume "k' \<in> set (ms r2 k)"
    from "5.IH"(2) [OF this] show ?thesis by auto
  qed
next
  case (6 r i s c)
  from "6.prems" have "k' = (i, s, c) \<or>
    (\<exists>k1 \<in> set (ms r (i, s, c)). length (fst (snd k1)) < length s \<and> k' \<in> set (ms (Star r) k1))"
    by (auto split: if_splits)
  then show ?case
  proof
    assume "k' = (i, s, c)"
    then show ?thesis by (auto intro: kleene.nil)
  next
    assume "\<exists>k1 \<in> set (ms r (i, s, c)). length (fst (snd k1)) < length s \<and> k' \<in> set (ms (Star r) k1)"
    then obtain k1 where k1: "k1 \<in> set (ms r (i, s, c))" "length (fst (snd k1)) < length s"
      "k' \<in> set (ms (Star r) k1)" by blast
    from "6.IH"(1) [OF k1(1)] obtain u where
      u: "s = u @ fst (snd k1)" "fst k1 = i + length u" "u \<in> lang r" by auto
    from "6.IH"(2) [OF k1(1) k1(2) k1(3)] obtain v where
      v: "fst (snd k1) = v @ fst (snd k')" "fst k' = fst k1 + length v" "v \<in> kleene (lang r)"
      by auto
    from u v have "s = (u @ v) @ fst (snd k')" "fst k' = i + length (u @ v)"
      "u @ v \<in> kleene (lang r)" by (auto intro: kleene.app)
    then show ?thesis by (simp del: append_assoc)
  qed
next
  case (7 r i s c)
  from "7.prems" have "k' = (i, s, c) \<or>
    (\<exists>k1 \<in> set (ms r (i, s, c)). length (fst (snd k1)) < length s \<and> k' \<in> set (ms (LazyStar r) k1))"
    by (auto split: if_splits)
  then show ?case
  proof
    assume "k' = (i, s, c)"
    then show ?thesis by (auto intro: kleene.nil)
  next
    assume "\<exists>k1 \<in> set (ms r (i, s, c)). length (fst (snd k1)) < length s \<and> k' \<in> set (ms (LazyStar r) k1)"
    then obtain k1 where k1: "k1 \<in> set (ms r (i, s, c))" "length (fst (snd k1)) < length s"
      "k' \<in> set (ms (LazyStar r) k1)" by blast
    from "7.IH"(1) [OF k1(1)] obtain u where
      u: "s = u @ fst (snd k1)" "fst k1 = i + length u" "u \<in> lang r" by auto
    from "7.IH"(2) [OF k1(1) k1(2) k1(3)] obtain v where
      v: "fst (snd k1) = v @ fst (snd k')" "fst k' = fst k1 + length v" "v \<in> kleene (lang r)"
      by auto
    from u v have "s = (u @ v) @ fst (snd k')" "fst k' = i + length (u @ v)"
      "u @ v \<in> kleene (lang r)" by (auto intro: kleene.app)
    then show ?thesis by (simp del: append_assoc)
  qed
next
  case (8 n r i s c)
  from "8.prems" obtain k1 where k1: "k1 \<in> set (ms r (i, s, c))"
    "k' = (fst k1, fst (snd k1), (snd (snd k1))(n \<mapsto> take (fst k1 - i) s))" by auto
  from "8.IH" [OF k1(1)] k1(2) show ?case by auto
qed


lemma ms_caps:
  "k' \<in> set (ms r k) \<Longrightarrow> snd (snd k') n = Some v \<Longrightarrow>
     snd (snd k) n = Some v \<or> (\<exists>g. (n, g) \<in> groups r \<and> v \<in> lang g)"
proof (induction r k arbitrary: k' rule: ms.induct)
  case (1 P i s c)
  then show ?case by (cases s) (auto split: if_splits)
next
  case (2 k)
  then show ?case by simp
next
  case (3 i s c)
  then show ?case by (auto split: if_splits)
next
  case (4 r1 r2 k)
  from "4.prems" obtain k1 where k1: "k1 \<in> set (ms r1 k)" "k' \<in> set (ms r2 k1)" by auto
  from "4.IH"(2) [OF k1(1) k1(2) "4.prems"(2)]
  show ?case
  proof
    assume "snd (snd k1) n = Some v"
    from "4.IH"(1) [OF k1(1) this] show ?thesis by auto
  next
    assume "\<exists>g. (n, g) \<in> groups r2 \<and> v \<in> lang g"
    then show ?thesis by auto
  qed
next
  case (5 r1 r2 k)
  from "5.prems" have "k' \<in> set (ms r1 k) \<or> k' \<in> set (ms r2 k)" by simp
  then show ?case
  proof
    assume "k' \<in> set (ms r1 k)"
    from "5.IH"(1) [OF this "5.prems"(2)] show ?thesis by auto
  next
    assume "k' \<in> set (ms r2 k)"
    from "5.IH"(2) [OF this "5.prems"(2)] show ?thesis by auto
  qed
next
  case (6 r i s c)
  from "6.prems"(1) have "k' = (i, s, c) \<or>
    (\<exists>k1 \<in> set (ms r (i, s, c)). length (fst (snd k1)) < length s \<and> k' \<in> set (ms (Star r) k1))"
    by (auto split: if_splits)
  then show ?case
  proof
    assume "k' = (i, s, c)"
    with "6.prems"(2) show ?thesis by simp
  next
    assume "\<exists>k1 \<in> set (ms r (i, s, c)). length (fst (snd k1)) < length s \<and> k' \<in> set (ms (Star r) k1)"
    then obtain k1 where k1: "k1 \<in> set (ms r (i, s, c))" "length (fst (snd k1)) < length s"
      "k' \<in> set (ms (Star r) k1)" by blast
    from "6.IH"(2) [OF k1(1) k1(2) k1(3) "6.prems"(2)]
    show ?thesis
    proof
      assume "snd (snd k1) n = Some v"
      from "6.IH"(1) [OF k1(1) this] show ?thesis by auto
    next
      assume "\<exists>g. (n, g) \<in> groups (Star r) \<and> v \<in> lang g"
      then show ?thesis by auto
    qed
  qed
next
  case (7 r i s c)
  from "7.prems"(1) have "k' = (i, s, c) \<or>
    (\<exists>k1 \<in> set (ms r (i, s, c)). length (fst (snd k1)) < length s \<and> k' \<in> set (ms (LazyStar r) k1))"
    by (auto split: if_splits)
  then show ?case
  proof
    assume "k' = (i, s, c)"
    with "7.prems"(2) show ?thesis by simp
  next
    assume "\<exists>k1 \<in> set (ms r (i, s, c)). length (fst (snd k1)) < length s \<and> k' \<in> set (ms (LazyStar r) k1)"
    then obtain k1 where k1: "k1 \<in> set (ms r (i, s, c))" "length (fst (snd k1)) < length s"
      "k' \<in> set (ms (LazyStar r) k1)" by blast
    from "7.IH"(2) [OF k1(1) k1(2) k1(3) "7.prems"(2)]
    show ?thesis
    proof
      assume "snd (snd k1) n = Some v"
      from "7.IH"(1) [OF k1(1) this] show ?thesis by auto
    next
      assume "\<exists>g. (n, g) \<in> groups (LazyStar r) \<and> v \<in> lang g"
      then show ?thesis by auto
    qed
  qed
next
  case (8 m r i s c)
  from "8.prems"(1) obtain k1 where k1: "k1 \<in> set (ms r (i, s, c))"
    "k' = (fst k1, fst (snd k1), (snd (snd k1))(m \<mapsto> take (fst k1 - i) s))" by auto
  show ?case
  proof (cases "n = m")
    case True
    from ms_sound [OF k1(1)] obtain w where
      w: "s = w @ fst (snd k1)" "fst k1 = i + length w" "w \<in> lang r" by auto
    from "8.prems"(2) k1(2) True have "v = take (fst k1 - i) s" by simp
    with w have "v = w" by simp
    with w(3) True show ?thesis by auto
  next
    case False
    with "8.prems"(2) k1(2) have "snd (snd k1) n = Some v" by simp
    from "8.IH" [OF k1(1) this] show ?thesis by auto
  qed
qed

lemma ms_keeps:
  "k' \<in> set (ms r k) \<Longrightarrow> snd (snd k) n \<noteq> None \<Longrightarrow> snd (snd k') n \<noteq> None"
proof (induction r k arbitrary: k' rule: ms.induct)
  case (1 P i s c)
  then show ?case by (cases s) (auto split: if_splits)
next
  case (2 k)
  then show ?case by simp
next
  case (3 i s c)
  then show ?case by (auto split: if_splits)
next
  case (4 r1 r2 k)
  from "4.prems" obtain k1 where k1: "k1 \<in> set (ms r1 k)" "k' \<in> set (ms r2 k1)" by auto
  from "4.IH"(1) [OF k1(1) "4.prems"(2)] have "snd (snd k1) n \<noteq> None" .
  from "4.IH"(2) [OF k1(1) k1(2) this] show ?case .
next
  case (5 r1 r2 k)
  from "5.prems" have "k' \<in> set (ms r1 k) \<or> k' \<in> set (ms r2 k)" by simp
  then show ?case
  proof
    assume "k' \<in> set (ms r1 k)"
    from "5.IH"(1) [OF this "5.prems"(2)] show ?thesis .
  next
    assume "k' \<in> set (ms r2 k)"
    from "5.IH"(2) [OF this "5.prems"(2)] show ?thesis .
  qed
next
  case (6 r i s c)
  from "6.prems"(1) have "k' = (i, s, c) \<or>
    (\<exists>k1 \<in> set (ms r (i, s, c)). length (fst (snd k1)) < length s \<and> k' \<in> set (ms (Star r) k1))"
    by (auto split: if_splits)
  then show ?case
  proof
    assume "k' = (i, s, c)"
    with "6.prems"(2) show ?thesis by simp
  next
    assume "\<exists>k1 \<in> set (ms r (i, s, c)). length (fst (snd k1)) < length s \<and> k' \<in> set (ms (Star r) k1)"
    then obtain k1 where k1: "k1 \<in> set (ms r (i, s, c))" "length (fst (snd k1)) < length s"
      "k' \<in> set (ms (Star r) k1)" by blast
    from "6.IH"(1) [OF k1(1) "6.prems"(2)] have "snd (snd k1) n \<noteq> None" .
    from "6.IH"(2) [OF k1(1) k1(2) k1(3) this] show ?thesis .
  qed
next
  case (7 r i s c)
  from "7.prems"(1) have "k' = (i, s, c) \<or>
    (\<exists>k1 \<in> set (ms r (i, s, c)). length (fst (snd k1)) < length s \<and> k' \<in> set (ms (LazyStar r) k1))"
    by (auto split: if_splits)
  then show ?case
  proof
    assume "k' = (i, s, c)"
    with "7.prems"(2) show ?thesis by simp
  next
    assume "\<exists>k1 \<in> set (ms r (i, s, c)). length (fst (snd k1)) < length s \<and> k' \<in> set (ms (LazyStar r) k1)"
    then obtain k1 where k1: "k1 \<in> set (ms r (i, s, c))" "length (fst (snd k1)) < length s"
      "k' \<in> set (ms (LazyStar r) k1)" by blast
    from "7.IH"(1) [OF k1(1) "7.prems"(2)] have "snd (snd k1) n \<noteq> None" .
    from "7.IH"(2) [OF k1(1) k1(2) k1(3) this] show ?thesis .
  qed
next
  case (8 m r i s c)
  from "8.prems"(1) obtain k1 where k1: "k1 \<in> set (ms r (i, s, c))"
    "k' = (fst k1, fst (snd k1), (snd (snd k1))(m \<mapsto> take (fst k1 - i) s))" by auto
  from "8.IH" [OF k1(1) "8.prems"(2)] k1(2) show ?case by simp
qed

lemma ms_sure:
  "k' \<in> set (ms r k) \<Longrightarrow> n \<in> sure r \<Longrightarrow> snd (snd k') n \<noteq> None"
proof (induction r k arbitrary: k' rule: ms.induct)
  case (1 P i s c)
  then show ?case by simp
next
  case (2 k)
  then show ?case by simp
next
  case (3 i s c)
  then show ?case by simp
next
  case (4 r1 r2 k)
  from "4.prems" obtain k1 where k1: "k1 \<in> set (ms r1 k)" "k' \<in> set (ms r2 k1)" by auto
  from "4.prems"(2) have "n \<in> sure r1 \<or> n \<in> sure r2" by simp
  then show ?case
  proof
    assume "n \<in> sure r1"
    from "4.IH"(1) [OF k1(1) this] have "snd (snd k1) n \<noteq> None" .
    from ms_keeps [OF k1(2) this] show ?thesis .
  next
    assume "n \<in> sure r2"
    from "4.IH"(2) [OF k1(1) k1(2) this] show ?thesis .
  qed
next
  case (5 r1 r2 k)
  from "5.prems"(2) have n: "n \<in> sure r1" "n \<in> sure r2" by simp_all
  from "5.prems"(1) have "k' \<in> set (ms r1 k) \<or> k' \<in> set (ms r2 k)" by simp
  then show ?case
  proof
    assume "k' \<in> set (ms r1 k)"
    from "5.IH"(1) [OF this n(1)] show ?thesis .
  next
    assume "k' \<in> set (ms r2 k)"
    from "5.IH"(2) [OF this n(2)] show ?thesis .
  qed
next
  case (6 r i s c)
  then show ?case by simp
next
  case (7 r i s c)
  then show ?case by simp
next
  case (8 m r i s c)
  from "8.prems"(1) obtain k1 where k1: "k1 \<in> set (ms r (i, s, c))"
    "k' = (fst k1, fst (snd k1), (snd (snd k1))(m \<mapsto> take (fst k1 - i) s))" by auto
  show ?case
  proof (cases "n = m")
    case True
    with k1(2) show ?thesis by simp
  next
    case False
    with "8.prems"(2) have "n \<in> sure r" by simp
    from "8.IH" [OF k1(1) this] k1(2) False show ?thesis by simp
  qed
qed

lemma rx_search_match:
  "rx_search r i s = Some m \<Longrightarrow>
     \<exists>j t k'. k' \<in> set (ms r (j, t, Map.empty)) \<and> m = snd (snd k')"
proof (induction s arbitrary: i)
  case Nil
  show ?case
  proof (cases "ms r (i, [], Map.empty)")
    case Nil
    with Nil.prems show ?thesis by simp
  next
    case (Cons k ks)
    with Nil.prems have "m = snd (snd k)" by simp
    moreover from Cons have "k \<in> set (ms r (i, [], Map.empty))" by simp
    ultimately show ?thesis by blast
  qed
next
  case (Cons x xs)
  show ?case
  proof (cases "ms r (i, x # xs, Map.empty)")
    case Nil
    with Cons.prems have "rx_search r (Suc i) xs = Some m" by simp
    from Cons.IH [OF this] show ?thesis .
  next
    case (Cons k ks)
    with Cons.prems have "m = snd (snd k)" by simp
    moreover from Cons have "k \<in> set (ms r (i, x # xs, Map.empty))" by simp
    ultimately show ?thesis by blast
  qed
qed

text \<open>What a successful match says of its groups.\<close>

lemma rx_match_group:
  assumes "rx_match s r = Some m" and "m n = Some v"
  shows "\<exists>g. (n, g) \<in> groups r \<and> v \<in> lang g"
proof -
  from assms(1) obtain j t k' where k: "k' \<in> set (ms r (j, t, Map.empty))" "m = snd (snd k')"
    unfolding rx_match_def by (blast dest: rx_search_match)
  from ms_caps [OF k(1), of n v] assms(2) k(2) show ?thesis by simp
qed

lemma rx_match_sure:
  assumes "rx_match s r = Some m" and "n \<in> sure r"
  shows "\<exists>v. m n = Some v"
proof -
  from assms(1) obtain j t k' where k: "k' \<in> set (ms r (j, t, Map.empty))" "m = snd (snd k')"
    unfolding rx_match_def by (blast dest: rx_search_match)
  from ms_sure [OF k(1) assms(2)] k(2) show ?thesis by auto
qed

subsection \<open>Splitting and padding\<close>

lemma split_on_no_sep: "c \<notin> set a \<Longrightarrow> split_on c a = [a]"
  by (induction a) auto

lemma split_on_sep: "c \<notin> set a \<Longrightarrow> split_on c (a @ c # rest) = a # split_on c rest"
  by (induction a) auto

lemma is_digit_not_sep:
  "is_digit x \<Longrightarrow> x \<noteq> CHR ''-''" "is_digit x \<Longrightarrow> x \<noteq> CHR ''/''"
  by (auto simp: is_digit_def)

lemma digits_no_sep:
  "list_all is_digit a \<Longrightarrow> CHR ''-'' \<notin> set a"
  "list_all is_digit a \<Longrightarrow> CHR ''/'' \<notin> set a"
  by (auto simp: list_all_iff dest: is_digit_not_sep)

lemma date_shapedI:
  assumes "list_all is_digit y" "list_all is_digit m" "list_all is_digit dd"
    and "length y = 3 \<or> length y = 4" and "length m = 2" and "length dd = 2"
  shows "date_shaped (y @ ''-'' @ m @ ''-'' @ dd)"
proof -
  have "split_on CHR ''-'' (y @ CHR ''-'' # m @ CHR ''-'' # dd) = [y, m, dd]"
    using assms(1,2,3) by (simp add: split_on_sep split_on_no_sep digits_no_sep)
  with assms show ?thesis by (simp add: date_shaped_def)
qed

subsection \<open>The date patterns\<close>

lemma lang_Seq_Cls:
  "w \<in> lang (Seq (Cls P) r) \<longleftrightarrow> (\<exists>x w'. w = x # w' \<and> P x \<and> w' \<in> lang r)"
proof
  assume "w \<in> lang (Seq (Cls P) r)"
  then obtain u v where "w = u @ v" "u \<in> lang (Cls P)" "v \<in> lang r" by auto
  then show "\<exists>x w'. w = x # w' \<and> P x \<and> w' \<in> lang r" by auto
next
  assume "\<exists>x w'. w = x # w' \<and> P x \<and> w' \<in> lang r"
  then obtain x w' where "w = [x] @ w'" "[x] \<in> lang (Cls P)" "w' \<in> lang r" by auto
  then have "\<exists>u v. w = u @ v \<and> u \<in> lang (Cls P) \<and> v \<in> lang r" by blast
  then show "w \<in> lang (Seq (Cls P) r)" by simp
qed

lemma lang_Seq_Eps: "w \<in> lang (Seq Eps r) \<longleftrightarrow> w \<in> lang r"
  by simp

lemma lang_Seq_Alt: "w \<in> lang (Seq (Alt a b) r) \<longleftrightarrow> w \<in> lang (Seq a r) \<or> w \<in> lang (Seq b r)"
  by auto

lemma in_Digit: "w \<in> lang Digit \<longleftrightarrow> (\<exists>x. w = [x] \<and> is_digit x)"
  unfolding Digit_def by auto

lemma in_Seq_Digit:
  "w \<in> lang (Seq Digit r) \<longleftrightarrow> (\<exists>x w'. w = x # w' \<and> is_digit x \<and> w' \<in> lang r)"
  unfolding Digit_def by (rule lang_Seq_Cls)

lemma in_Seq_Chr:
  "w \<in> lang (Seq (Chr c) r) \<longleftrightarrow> (\<exists>w'. w = c # w' \<and> w' \<in> lang r)"
  unfolding Chr_def lang_Seq_Cls by auto

lemma in_Seq_Opt_Digit:
  "w \<in> lang (Seq (Opt Digit) r) \<longleftrightarrow>
     (w \<in> lang r \<or> (\<exists>x w'. w = x # w' \<and> is_digit x \<and> w' \<in> lang r))"
  unfolding Opt_def lang_Seq_Alt lang_Seq_Eps in_Seq_Digit by blast

lemma in_year_tail:
  "w \<in> lang (Opt (Seq Digit (Opt Digit))) \<longleftrightarrow>
     (w = [] \<or> (\<exists>x. w = [x] \<and> is_digit x) \<or> (\<exists>x y. w = [x, y] \<and> is_digit x \<and> is_digit y))"
proof -
  have a: "w \<in> lang (Opt Digit) \<longleftrightarrow> (w = [] \<or> (\<exists>x. w = [x] \<and> is_digit x))" for w
    unfolding Opt_def using in_Digit [of w] by auto
  have "w \<in> lang (Opt (Seq Digit (Opt Digit))) \<longleftrightarrow>
      (w = [] \<or> w \<in> lang (Seq Digit (Opt Digit)))"
    unfolding Opt_def [of "Seq Digit (Opt Digit)"] by auto
  then show ?thesis unfolding in_Seq_Digit a by auto
qed

lemma iso_group_shape:
  assumes "v \<in> lang (Seqs [Digit, Digit, Digit, Digit, Chr CHR ''-'', Digit, Digit,
                   Chr CHR ''-'', Digit, Digit])"
  shows "date_shaped v"
proof -
  from assms obtain a b c d e f g h where
    v: "v = [a, b, c, d] @ ''-'' @ [e, f] @ ''-'' @ [g, h]"
    and dg: "is_digit a" "is_digit b" "is_digit c" "is_digit d" "is_digit e" "is_digit f"
      "is_digit g" "is_digit h"
    unfolding Seqs.simps in_Seq_Digit in_Seq_Chr in_Digit by auto
  show ?thesis unfolding v by (rule date_shapedI) (simp_all add: dg)
qed

lemma us_group_parts:
  assumes "v \<in> lang (Seqs [Digit, Opt Digit, Chr CHR ''/'', Digit, Opt Digit, Chr CHR ''/'',
                   Digit, Digit, Opt (Seq Digit (Opt Digit))])"
  obtains a b y where "v = a @ CHR ''/'' # b @ CHR ''/'' # y"
    "list_all is_digit a" "list_all is_digit b" "list_all is_digit y"
    "length a = 1 \<or> length a = 2" "length b = 1 \<or> length b = 2"
    "length y = 2 \<or> length y = 3 \<or> length y = 4"
proof -
  have tail: "list_all is_digit w \<and> (length w = 2 \<or> length w = 3 \<or> length w = 4)"
    if "w \<in> lang (Seqs [Digit, Digit, Opt (Seq Digit (Opt Digit))])" for w
    using that unfolding Seqs.simps in_Seq_Digit in_year_tail by auto
  have mid: "\<exists>b y. w = b @ CHR ''/'' # y \<and> list_all is_digit b \<and> list_all is_digit y
      \<and> (length b = 1 \<or> length b = 2) \<and> (length y = 2 \<or> length y = 3 \<or> length y = 4)"
    if "w \<in> lang (Seqs [Digit, Opt Digit, Chr CHR ''/'',
                   Digit, Digit, Opt (Seq Digit (Opt Digit))])" for w
  proof -
    from that obtain x w1 where x: "w = x # w1" "is_digit x"
      "w1 \<in> lang (Seqs [Opt Digit, Chr CHR ''/'', Digit, Digit, Opt (Seq Digit (Opt Digit))])"
      unfolding Seqs.simps in_Seq_Digit [of w] by blast
    from x(3) have "(\<exists>w2. w1 = CHR ''/'' # w2
          \<and> w2 \<in> lang (Seqs [Digit, Digit, Opt (Seq Digit (Opt Digit))]))
       \<or> (\<exists>x2 w2. w1 = x2 # CHR ''/'' # w2 \<and> is_digit x2
          \<and> w2 \<in> lang (Seqs [Digit, Digit, Opt (Seq Digit (Opt Digit))]))"
      unfolding Seqs.simps in_Seq_Opt_Digit [of w1] in_Seq_Chr by blast
    then show ?thesis
    proof (elim disjE exE conjE)
      fix w2 assume w: "w1 = CHR ''/'' # w2"
        "w2 \<in> lang (Seqs [Digit, Digit, Opt (Seq Digit (Opt Digit))])"
      from tail [OF w(2)] x w(1) show ?thesis
        by (intro exI [of _ "[x]"] exI [of _ w2]) simp
    next
      fix x2 w2 assume w: "w1 = x2 # CHR ''/'' # w2" "is_digit x2"
        "w2 \<in> lang (Seqs [Digit, Digit, Opt (Seq Digit (Opt Digit))])"
      from tail [OF w(3)] x w(1,2) show ?thesis
        by (intro exI [of _ "[x, x2]"] exI [of _ w2]) simp
    qed
  qed
  from assms obtain x w1 where x: "v = x # w1" "is_digit x"
    "w1 \<in> lang (Seqs [Opt Digit, Chr CHR ''/'', Digit, Opt Digit, Chr CHR ''/'',
                   Digit, Digit, Opt (Seq Digit (Opt Digit))])"
    unfolding Seqs.simps in_Seq_Digit [of v] by blast
  from x(3) have "(\<exists>w2. w1 = CHR ''/'' # w2
        \<and> w2 \<in> lang (Seqs [Digit, Opt Digit, Chr CHR ''/'',
                   Digit, Digit, Opt (Seq Digit (Opt Digit))]))
     \<or> (\<exists>x2 w2. w1 = x2 # CHR ''/'' # w2 \<and> is_digit x2
        \<and> w2 \<in> lang (Seqs [Digit, Opt Digit, Chr CHR ''/'',
                   Digit, Digit, Opt (Seq Digit (Opt Digit))]))"
    unfolding Seqs.simps in_Seq_Opt_Digit [of w1] in_Seq_Chr by blast
  then show ?thesis
  proof (elim disjE exE conjE)
    fix w2 assume w: "w1 = CHR ''/'' # w2"
      "w2 \<in> lang (Seqs [Digit, Opt Digit, Chr CHR ''/'',
                   Digit, Digit, Opt (Seq Digit (Opt Digit))])"
    from mid [OF w(2)] obtain b y where "w2 = b @ CHR ''/'' # y" "list_all is_digit b"
      "list_all is_digit y" "length b = 1 \<or> length b = 2"
      "length y = 2 \<or> length y = 3 \<or> length y = 4" by blast
    with x w(1) show ?thesis by (intro that [of "[x]" b y]) simp_all
  next
    fix x2 w2 assume w: "w1 = x2 # CHR ''/'' # w2" "is_digit x2"
      "w2 \<in> lang (Seqs [Digit, Opt Digit, Chr CHR ''/'',
                   Digit, Digit, Opt (Seq Digit (Opt Digit))])"
    from mid [OF w(3)] obtain b y where "w2 = b @ CHR ''/'' # y" "list_all is_digit b"
      "list_all is_digit y" "length b = 1 \<or> length b = 2"
      "length y = 2 \<or> length y = 3 \<or> length y = 4" by blast
    with x w(1,2) show ?thesis by (intro that [of "[x, x2]" b y]) simp_all
  qed
qed

lemma padStart_digits:
  assumes "list_all is_digit a" and "length a = 1 \<or> length a = 2"
  shows "list_all is_digit (padStart 2 CHR ''0'' a)" and "length (padStart 2 CHR ''0'' a) = 2"
  using assms by (auto simp: padStart_def is_digit_def)

lemma us_to_iso_shape:
  assumes "v \<in> lang (Seqs [Digit, Opt Digit, Chr CHR ''/'', Digit, Opt Digit, Chr CHR ''/'',
                   Digit, Digit, Opt (Seq Digit (Opt Digit))])"
  shows "\<exists>x. us_to_iso v = Inr x \<and> date_shaped x"
proof -
  from assms obtain a b y where v: "v = a @ CHR ''/'' # b @ CHR ''/'' # y"
    and dg: "list_all is_digit a" "list_all is_digit b" "list_all is_digit y"
    and la: "length a = 1 \<or> length a = 2" and lb: "length b = 1 \<or> length b = 2"
    and ly: "length y = 2 \<or> length y = 3 \<or> length y = 4"
    by (rule us_group_parts)
  have sp: "split_on CHR ''/'' v = [a, b, y]"
    unfolding v using dg by (simp add: split_on_sep split_on_no_sep digits_no_sep)
  let ?year = "if length y = 2 then ''20'' @ y else y"
  have r: "us_to_iso v = Inr (?year @ ''-'' @ padStart 2 CHR ''0'' a @ ''-'' @ padStart 2 CHR ''0'' b)"
    by (simp add: us_to_iso_def sp part_def Let_def)
  have yd: "list_all is_digit ?year" using dg(3) by (simp add: is_digit_def)
  have yl: "length ?year = 3 \<or> length ?year = 4" using ly by auto
  have "date_shaped (?year @ ''-'' @ padStart 2 CHR ''0'' a @ ''-'' @ padStart 2 CHR ''0'' b)"
    using yd padStart_digits [OF dg(1) la] padStart_digits [OF dg(2) lb] yl
    by (intro date_shapedI) simp_all
  with r show ?thesis by blast
qed


lemma groups_rx_iso_date:
  "groups rx_iso_date = {(1, Seqs [Digit, Digit, Digit, Digit, Chr CHR ''-'', Digit, Digit,
                   Chr CHR ''-'', Digit, Digit])}"
  by (simp add: rx_iso_date_def rx_due_keyword_def LitI_def ChrI_def Opt_def Chr_def
      Space_def Digit_def)

lemma groups_rx_us_date:
  "groups rx_us_date = {(1, Seqs [Digit, Opt Digit, Chr CHR ''/'', Digit, Opt Digit,
                   Chr CHR ''/'', Digit, Digit, Opt (Seq Digit (Opt Digit))])}"
  by (simp add: rx_us_date_def rx_due_keyword_def LitI_def ChrI_def Opt_def Chr_def
      Space_def Digit_def)

lemma sure_rx_us_date: "1 \<in> sure rx_us_date"
  by (simp add: rx_us_date_def rx_due_keyword_def)

lemma iso_match_shape:
  assumes "rx_match str rx_iso_date = Some m" and "m 1 = Some v"
  shows "date_shaped v"
proof -
  from rx_match_group [OF assms] obtain g where "(1, g) \<in> groups rx_iso_date" "v \<in> lang g"
    by blast
  then have "v \<in> lang (Seqs [Digit, Digit, Digit, Digit, Chr CHR ''-'', Digit, Digit,
                   Chr CHR ''-'', Digit, Digit])"
    unfolding groups_rx_iso_date by blast
  then show ?thesis by (rule iso_group_shape)
qed

lemma us_match_shape:
  assumes "rx_match str rx_us_date = Some m"
  shows "\<exists>us x. group m 1 = Inr us \<and> us_to_iso us = Inr x \<and> date_shaped x"
proof -
  from rx_match_sure [OF assms sure_rx_us_date] obtain us where us: "m 1 = Some us" by blast
  from rx_match_group [OF assms us] obtain g where "(1, g) \<in> groups rx_us_date" "us \<in> lang g"
    by blast
  then have "us \<in> lang (Seqs [Digit, Opt Digit, Chr CHR ''/'', Digit, Opt Digit,
                   Chr CHR ''/'', Digit, Digit, Opt (Seq Digit (Opt Digit))])"
    unfolding groups_rx_us_date by blast
  then have "\<exists>x. us_to_iso us = Inr x \<and> date_shaped x" by (rule us_to_iso_shape)
  moreover from us have "group m 1 = Inr us" by (simp add: group_def)
  ultimately show ?thesis by blast
qed

text \<open>The due date of \<open>parseAssigneeAndDueDate\<close>, case by case.\<close>

lemma parseAssigneeAndDueDate_cases:
  obtains (iso) a m v where "rx_match str rx_iso_date = Some m" "m 1 = Some v"
      "parseAssigneeAndDueDate str = Inr (a, Some v)" "date_shaped v"
  | (us) a m us x where
      "rx_match str rx_iso_date = None \<or> (\<exists>m'. rx_match str rx_iso_date = Some m' \<and> m' 1 = None)"
      "rx_match str rx_us_date = Some m" "group m 1 = Inr us" "us_to_iso us = Inr x"
      "parseAssigneeAndDueDate str = Inr (a, Some x)" "date_shaped x"
  | (none) a where
      "rx_match str rx_iso_date = None \<or> (\<exists>m'. rx_match str rx_iso_date = Some m' \<and> m' 1 = None)"
      "rx_match str rx_us_date = None"
      "parseAssigneeAndDueDate str = Inr (a, None)"
proof -
  let ?a = "case rx_match str rx_mention of None \<Rightarrow> None | Some m \<Rightarrow> m 1"
  let ?d = "case rx_match str rx_iso_date of None \<Rightarrow> None | Some m \<Rightarrow> m 1"
  have p: "parseAssigneeAndDueDate str =
      (case (?d, rx_match str rx_us_date) of
           (None, Some m) \<Rightarrow>
             (case group m 1 of Inl e \<Rightarrow> Inl e
              | Inr us \<Rightarrow> (case us_to_iso us of Inl e \<Rightarrow> Inl e
                            | Inr v \<Rightarrow> Inr (?a, Some v)))
         | _ \<Rightarrow> Inr (?a, ?d))"
    by (simp add: parseAssigneeAndDueDate_def Let_def)
  show ?thesis
  proof (cases ?d)
    case (Some v)
    then obtain m where m: "rx_match str rx_iso_date = Some m" "m 1 = Some v"
      by (auto split: option.splits)
    from p Some have pe: "parseAssigneeAndDueDate str = Inr (?a, Some v)" by simp
    show ?thesis by (rule iso [OF m pe iso_match_shape [OF m]])
  next
    case None
    then have n: "rx_match str rx_iso_date = None
        \<or> (\<exists>m'. rx_match str rx_iso_date = Some m' \<and> m' 1 = None)"
      by (auto split: option.splits)
    show ?thesis
    proof (cases "rx_match str rx_us_date")
      case u: None
      with p None have pe: "parseAssigneeAndDueDate str = Inr (?a, None)" by simp
      show ?thesis by (rule none [OF n u pe])
    next
      case u: (Some m)
      from us_match_shape [OF u] obtain us x where x: "group m 1 = Inr us"
        "us_to_iso us = Inr x" "date_shaped x" by blast
      with p None u have pe: "parseAssigneeAndDueDate str = Inr (?a, Some x)" by simp
      show ?thesis by (rule us [OF n u x(1) x(2) pe x(3)])
    qed
  qed
qed

lemma parseAssigneeAndDueDate_never_raises:
  "\<exists>a d. parseAssigneeAndDueDate str = Inr (a, d)"
  by (rule parseAssigneeAndDueDate_cases [of str]) blast+

subsection \<open>The line patterns\<close>

lemma sure_line_patterns:
  "1 \<in> sure rx_checkbox" "2 \<in> sure rx_checkbox" "1 \<in> sure rx_action"
  "1 \<in> sure rx_mention_line" "2 \<in> sure rx_mention_line"
  by (simp_all add: rx_checkbox_def rx_action_def rx_mention_line_def)

lemma group_sure:
  "rx_match s r = Some m \<Longrightarrow> n \<in> sure r \<Longrightarrow> \<exists>v. group m n = Inr v"
  by (drule (1) rx_match_sure) (auto simp: group_def)

lemma extract_line_never_raises: "\<exists>item. extract_line line = Inr item"
proof (cases "rx_match line rx_checkbox")
  case (Some m)
  from group_sure [OF Some sure_line_patterns(1)] group_sure [OF Some sure_line_patterns(2)]
  obtain g1 g2 where g: "group m 1 = Inr g1" "group m 2 = Inr g2" by blast
  from parseAssigneeAndDueDate_never_raises [of "trim g2"] obtain a d where
    "parseAssigneeAndDueDate (trim g2) = Inr (a, d)" by blast
  with Some g show ?thesis by (simp add: extract_line_def Let_def)
next
  case None
  show ?thesis
  proof (cases "rx_match line rx_action")
    case (Some m)
    from group_sure [OF Some sure_line_patterns(3)]
    obtain g1 where g: "group m 1 = Inr g1" by blast
    from parseAssigneeAndDueDate_never_raises [of "trim g1"] obtain a d where
      "parseAssigneeAndDueDate (trim g1) = Inr (a, d)" by blast
    with None Some g show ?thesis by (simp add: extract_line_def Let_def)
  next
    case n2: None
    show ?thesis
    proof (cases "rx_match line rx_mention_line")
      case (Some m)
      from group_sure [OF Some sure_line_patterns(4)] group_sure [OF Some sure_line_patterns(5)]
      obtain g1 g2 where g: "group m 1 = Inr g1" "group m 2 = Inr g2" by blast
      from parseAssigneeAndDueDate_never_raises [of "trim g2"] obtain a d where
        "parseAssigneeAndDueDate (trim g2) = Inr (a, d)" by blast
      with None n2 Some g show ?thesis by (simp add: extract_line_def Let_def)
    next
      case n3: None
      with None n2 show ?thesis by (simp add: extract_line_def)
    qed
  qed
qed

lemma extract_lines_never_raises: "\<exists>items. extract_lines lines = Inr items"
proof (induction lines)
  case Nil
  then show ?case by simp
next
  case (Cons line lines)
  from extract_line_never_raises [of line] obtain item where "extract_line line = Inr item"
    by blast
  with Cons show ?case by auto
qed

lemma extractActionItems_never_raises: "\<exists>items. extractActionItems content = Inr items"
  unfolding extractActionItems_def by (rule extract_lines_never_raises)








section \<open>Properties of the sync orchestrator\<close>

subsection \<open>The store under the foreign keys\<close>

lemma getNote_None_iff: "getNote d i = None \<longleftrightarrow> i \<notin> sn_id ` set (db_notes d)"
  by (auto simp: getNote_def find_None_iff)

lemma getNote_notes: "db_notes d' = db_notes d \<Longrightarrow> getNote d' i = getNote d i"
  by (simp add: getNote_def)

lemma image_upsert_row:
  assumes "\<And>x. same x \<Longrightarrow> f (upd x) = f x" and "\<And>x. same x \<longleftrightarrow> f x = k" and "f new = k"
  shows "f ` set (upsert_row same upd new xs) = insert k (f ` set xs)"
  using assms by (induction xs) auto

lemma set_upsert_row:
  "y \<in> set (upsert_row same upd new xs) \<Longrightarrow>
     y \<in> set xs \<or> y = new \<or> (\<exists>x \<in> set xs. same x \<and> y = upd x)"
  by (induction xs) (auto split: if_splits)

lemma note_ids_upsertNote:
  "sn_id ` set (db_notes (upsertNote now note d)) = insert (sn_id note) (sn_id ` set (db_notes d))"
  unfolding upsertNote_def
  by (simp, rule image_upsert_row) auto

lemma getNote_upsertNote: "getNote (upsertNote now note d) (sn_id note) \<noteq> None"
  by (simp add: getNote_None_iff note_ids_upsertNote)

lemma upsertNote_frame:
  "db_recordings (upsertNote now note d) = db_recordings d"
  "db_sync_status (upsertNote now note d) = db_sync_status d"
  "db_participants (upsertNote now note d) = db_participants d"
  by (simp_all add: upsertNote_def)

lemma clear_frames:
  "db_notes (clearActionItemsForNote i d) = db_notes d"
  "db_recordings (clearActionItemsForNote i d) = db_recordings d"
  "db_sync_status (clearActionItemsForNote i d) = db_sync_status d"
  "db_participants (clearActionItemsForNote i d) = db_participants d"
  "db_notes (clearParticipantsForNote i d) = db_notes d"
  "db_recordings (clearParticipantsForNote i d) = db_recordings d"
  "db_sync_status (clearParticipantsForNote i d) = db_sync_status d"
  by (simp_all add: clearActionItemsForNote_def clearParticipantsForNote_def)

text \<open>An insert of an action item throws exactly when its note is not stored.\<close>

lemma insertActionItem_cases:
  obtains (refused) "getNote d (sa_note_id item) = None"
      "insertActionItem item d = Inl foreign_key_failed"
  | (written) d' where "getNote d (sa_note_id item) \<noteq> None"
      "insertActionItem item d = Inr d'"
      "db_notes d' = db_notes d" "db_recordings d' = db_recordings d"
      "db_sync_status d' = db_sync_status d" "db_participants d' = db_participants d"
proof (cases "getNote d (sa_note_id item) = None")
  case True
  then have "insertActionItem item d = Inl foreign_key_failed"
    by (simp add: insertActionItem_def)
  with True show ?thesis by (rule refused)
next
  case False
  let ?i = "next_rowid (db_action_items_seq d) (map sa_id (db_action_items d))"
  let ?d = "d\<lparr>db_action_items := db_action_items d @
          [\<lparr>sa_note_id = sa_note_id item, sa_content = sa_content item,
            sa_assignee = sa_assignee item, sa_due_date = sa_due_date item,
            sa_is_completed = sa_is_completed item, sa_created_at = sa_created_at item,
            sa_id = ?i\<rparr>],
          db_action_items_seq := ?i\<rparr>"
  from False have "insertActionItem item d = Inr ?d"
    by (simp add: insertActionItem_def Let_def)
  with False show ?thesis by (rule written) simp_all
qed

text \<open>
  An insert of a participant: ignored when the pair is stored, refused when the pair is
  new and the note is not stored, else one row more.
\<close>

lemma getParticipantsForNote_mem:
  "e \<in> set (getParticipantsForNote d i) \<longleftrightarrow>
     (\<exists>p \<in> set (db_participants d). sp_note_id p = i \<and> sp_email p = e)"
  unfolding getParticipantsForNote_def by (simp add: image_iff) blast

lemma insertParticipant_cases:
  obtains (ignored) d' where "e \<in> set (getParticipantsForNote d i)"
      "insertParticipant i e d = Inr d'" "db_participants d' = db_participants d"
      "db_notes d' = db_notes d" "db_recordings d' = db_recordings d"
      "db_sync_status d' = db_sync_status d"
  | (refused) "e \<notin> set (getParticipantsForNote d i)" "getNote d i = None"
      "insertParticipant i e d = Inl foreign_key_failed"
  | (written) d' k where "e \<notin> set (getParticipantsForNote d i)" "getNote d i \<noteq> None"
      "insertParticipant i e d = Inr d'"
      "db_participants d' = db_participants d @ [\<lparr>sp_id = k, sp_note_id = i, sp_email = e\<rparr>]"
      "db_notes d' = db_notes d" "db_recordings d' = db_recordings d"
      "db_sync_status d' = db_sync_status d"
proof -
  let ?k = "next_rowid (db_participants_seq d) (map sp_id (db_participants d))"
  show ?thesis
  proof (cases "e \<in> set (getParticipantsForNote d i)")
    case True
    then have "\<exists>p \<in> set (db_participants d). sp_note_id p = i \<and> sp_email p = e"
      unfolding getParticipantsForNote_mem .
    then have "insertParticipant i e d = Inr (d\<lparr>db_participants_seq := ?k\<rparr>)"
      by (simp add: insertParticipant_def Let_def)
    with True show ?thesis by (rule ignored) simp_all
  next
    case False
    then have n: "\<not> (\<exists>p \<in> set (db_participants d). sp_note_id p = i \<and> sp_email p = e)"
      unfolding getParticipantsForNote_mem .
    show ?thesis
    proof (cases "getNote d i = None")
      case True
      have "insertParticipant i e d =
          (if \<exists>p \<in> set (db_participants d). sp_note_id p = i \<and> sp_email p = e
           then Inr (d\<lparr>db_participants_seq := ?k\<rparr>)
           else if getNote d i = None then Inl foreign_key_failed
           else Inr (d\<lparr>db_participants := db_participants d @
                    [\<lparr>sp_id = ?k, sp_note_id = i, sp_email = e\<rparr>],
                  db_participants_seq := ?k\<rparr>))"
        by (simp add: insertParticipant_def Let_def)
      also have "\<dots> = Inl foreign_key_failed"
        using n True by (simp only: if_False if_True simp_thms)
      finally have "insertParticipant i e d = Inl foreign_key_failed" .
      with False True show ?thesis by (rule refused)
    next
      case g: False
      let ?d = "d\<lparr>db_participants := db_participants d @
                    [\<lparr>sp_id = ?k, sp_note_id = i, sp_email = e\<rparr>],
                  db_participants_seq := ?k\<rparr>"
      have "insertParticipant i e d =
          (if \<exists>p \<in> set (db_participants d). sp_note_id p = i \<and> sp_email p = e
           then Inr (d\<lparr>db_participants_seq := ?k\<rparr>)
           else if getNote d i = None then Inl foreign_key_failed
           else Inr ?d)"
        by (simp add: insertParticipant_def Let_def)
      also have "\<dots> = Inr ?d"
        using n g by (simp only: if_False simp_thms)
      finally have "insertParticipant i e d = Inr ?d" .
      with False g show ?thesis by (rule written) simp_all
    qed
  qed
qed

text \<open>An upsert of a recording throws exactly when its note is not stored.\<close>

lemma upsertRecording_cases:
  obtains (refused) "getNote d (sr_note_id r) = None"
      "upsertRecording now r d = Inl foreign_key_failed"
  | (written) d' where "getNote d (sr_note_id r) \<noteq> None"
      "upsertRecording now r d = Inr d'"
      "db_notes d' = db_notes d" "db_sync_status d' = db_sync_status d"
      "db_participants d' = db_participants d"
      "\<And>y. y \<in> set (db_recordings d') \<Longrightarrow>
         y \<in> set (db_recordings d) \<or> sr_note_id y = sr_note_id r"
      "\<exists>y \<in> set (db_recordings d'). sr_id y = sr_id r \<and> sr_note_id y = sr_note_id r"
proof (cases "getNote d (sr_note_id r) = None")
  case True
  then have "upsertRecording now r d = Inl foreign_key_failed"
    by (simp add: upsertRecording_def)
  with True show ?thesis by (rule refused)
next
  case False
  let ?upd = "\<lambda>old. old\<lparr>sr_note_id := sr_note_id r,
                  sr_title := sr_title r,
                  sr_updated_at := sr_updated_at r,
                  sr_event_start := sr_event_start r,
                  sr_event_end := sr_event_end r,
                  sr_recording_start := sr_recording_start r,
                  sr_recording_end := sr_recording_end r,
                  sr_event_guid := sr_event_guid r,
                  sr_call_url := sr_call_url r,
                  sr_transcript_json :=
                    coalesce (sr_transcript_json r) (sr_transcript_json old),
                  sr_synced_at := now\<rparr>"
  let ?new = "\<lparr>sr_id = sr_id r, sr_note_id = sr_note_id r, sr_title = sr_title r,
        sr_created_at = sr_created_at r, sr_updated_at = sr_updated_at r,
        sr_event_start = sr_event_start r, sr_event_end = sr_event_end r,
        sr_recording_start = sr_recording_start r, sr_recording_end = sr_recording_end r,
        sr_event_guid = sr_event_guid r, sr_call_url = sr_call_url r,
        sr_transcript_json = sr_transcript_json r, sr_synced_at = now\<rparr>"
  let ?rows = "upsert_row (\<lambda>old. sr_id old = sr_id r) ?upd ?new (db_recordings d)"
  let ?d = "d\<lparr>db_recordings := ?rows\<rparr>"
  from False have e: "upsertRecording now r d = Inr ?d"
    by (simp add: upsertRecording_def)
  have rows: "y \<in> set (db_recordings d) \<or> sr_note_id y = sr_note_id r"
    if "y \<in> set (db_recordings ?d)" for y
  proof -
    from that have "y \<in> set ?rows" by simp
    from set_upsert_row [OF this] show ?thesis by (elim disjE bexE) simp_all
  qed
  have "find (\<lambda>old. sr_id old = sr_id r) ?rows =
      Some (case find (\<lambda>old. sr_id old = sr_id r) (db_recordings d) of
              None \<Rightarrow> ?new | Some x \<Rightarrow> ?upd x)"
    by (rule find_upsert_row_same) simp_all
  then obtain y where y: "find (\<lambda>old. sr_id old = sr_id r) ?rows = Some y"
    "sr_note_id y = sr_note_id r"
    by (cases "find (\<lambda>old. sr_id old = sr_id r) (db_recordings d)") simp_all
  from y(1) have "y \<in> set ?rows" "sr_id y = sr_id r"
    by (auto simp: find_Some_iff in_set_conv_nth)
  with y(2) have ex: "\<exists>y \<in> set (db_recordings ?d). sr_id y = sr_id r \<and> sr_note_id y = sr_note_id r"
    by auto
  show ?thesis
  proof (rule written [OF False e])
    show "db_notes ?d = db_notes d" "db_sync_status ?d = db_sync_status d"
      "db_participants ?d = db_participants d" by simp_all
    show "\<exists>y \<in> set (db_recordings ?d). sr_id y = sr_id r \<and> sr_note_id y = sr_note_id r"
      by (rule ex)
    show "y \<in> set (db_recordings d) \<or> sr_note_id y = sr_note_id r"
      if "y \<in> set (db_recordings ?d)" for y
      using that by (rule rows)
  qed
qed

subsection \<open>The loops over the items and the attendees of a note\<close>

lemma insert_items_frame:
  "insert_items E i items (res, (t, d)) = (out, (t', d')) \<Longrightarrow>
     db_notes d' = db_notes d \<and> db_recordings d' = db_recordings d
     \<and> db_sync_status d' = db_sync_status d \<and> db_participants d' = db_participants d
     \<and> (\<forall>r. out = Inr r \<longrightarrow> participants_synced r = participants_synced res)"
proof (induction items arbitrary: res t d)
  case Nil
  then show ?case by auto
next
  case (Cons item items)
  let ?item = "\<lparr>sa_note_id = i, sa_content = pa_content item,
              sa_assignee = pa_assignee item, sa_due_date = pa_due_date item,
              sa_is_completed = pa_is_completed item, sa_created_at = env_clock E t\<rparr>"
  show ?case
  proof (cases rule: insertActionItem_cases [of d ?item])
    case refused
    with Cons.prems have "d' = d" "out = Inl foreign_key_failed" by simp_all
    then show ?thesis by simp
  next
    case (written d1)
    with Cons.prems have "insert_items E i items
        (res\<lparr>action_items_found := Suc (action_items_found res)\<rparr>, (Suc t, d1)) = (out, (t', d'))"
      by simp
    from Cons.IH [OF this] written(3-6) show ?thesis by simp
  qed
qed

lemma insert_items_ok:
  "getNote d i \<noteq> None \<Longrightarrow> \<exists>r t' d'. insert_items E i items (res, (t, d)) = (Inr r, (t', d'))"
proof (induction items arbitrary: res t d)
  case Nil
  then show ?case by simp
next
  case (Cons item items)
  let ?item = "\<lparr>sa_note_id = i, sa_content = pa_content item,
              sa_assignee = pa_assignee item, sa_due_date = pa_due_date item,
              sa_is_completed = pa_is_completed item, sa_created_at = env_clock E t\<rparr>"
  show ?case
  proof (cases rule: insertActionItem_cases [of d ?item])
    case refused
    with Cons.prems show ?thesis by simp
  next
    case (written d1)
    from Cons.prems have "getNote d1 i \<noteq> None" unfolding getNote_notes [OF written(3)] .
    from Cons.IH [OF this, of "res\<lparr>action_items_found := Suc (action_items_found res)\<rparr>" "Suc t"]
    obtain r t' d' where "insert_items E i items
        (res\<lparr>action_items_found := Suc (action_items_found res)\<rparr>, (Suc t, d1)) = (Inr r, (t', d'))"
      by blast
    with written(2) have "insert_items E i (item # items) (res, (t, d)) = (Inr r, (t', d'))"
      by simp
    then show ?thesis by blast
  qed
qed

lemma insertParticipant_effect:
  assumes "insertParticipant i e d = Inr d'"
  shows "getParticipantsForNote d' i =
      getParticipantsForNote d i @ (if e \<in> set (getParticipantsForNote d i) then [] else [e])"
    and "length (db_participants d') =
      length (db_participants d) + (if e \<in> set (getParticipantsForNote d i) then 0 else 1)"
    and "rows_of_others d' i = rows_of_others d i"
    and "db_notes d' = db_notes d" and "db_recordings d' = db_recordings d"
    and "db_sync_status d' = db_sync_status d"
proof -
  have "getParticipantsForNote d' i =
      getParticipantsForNote d i @ (if e \<in> set (getParticipantsForNote d i) then [] else [e])
    \<and> length (db_participants d') =
      length (db_participants d) + (if e \<in> set (getParticipantsForNote d i) then 0 else 1)
    \<and> rows_of_others d' i = rows_of_others d i
    \<and> db_notes d' = db_notes d \<and> db_recordings d' = db_recordings d
    \<and> db_sync_status d' = db_sync_status d"
  proof (cases rule: insertParticipant_cases [of e d i])
    case (ignored d1)
    with assms have "d' = d1" by simp
    with ignored show ?thesis by (simp add: getParticipantsForNote_def rows_of_others_def)
  next
    case refused
    with assms show ?thesis by simp
  next
    case (written d1 k)
    with assms have "d' = d1" by simp
    with written show ?thesis by (simp add: getParticipantsForNote_def rows_of_others_def)
  qed
  then show "getParticipantsForNote d' i =
      getParticipantsForNote d i @ (if e \<in> set (getParticipantsForNote d i) then [] else [e])"
    and "length (db_participants d') =
      length (db_participants d) + (if e \<in> set (getParticipantsForNote d i) then 0 else 1)"
    and "rows_of_others d' i = rows_of_others d i"
    and "db_notes d' = db_notes d" and "db_recordings d' = db_recordings d"
    and "db_sync_status d' = db_sync_status d"
    by blast+
qed

lemma insert_attendees_frame:
  "insert_attendees i emails (res, d) = (out, d') \<Longrightarrow>
     db_notes d' = db_notes d \<and> db_recordings d' = db_recordings d
     \<and> db_sync_status d' = db_sync_status d"
proof (induction emails arbitrary: res d)
  case Nil
  then show ?case by simp
next
  case (Cons email emails)
  show ?case
  proof (cases "truthy email \<and> truthy (trim email)")
    case True
    show ?thesis
    proof (cases "insertParticipant i (trim email) d")
      case (Inl e)
      with Cons.prems True have "d' = d" by simp
      then show ?thesis by simp
    next
      case (Inr d1)
      with Cons.prems True have "insert_attendees i emails
         (res\<lparr>participants_synced := Suc (participants_synced res)\<rparr>, d1) = (out, d')" by simp
      from Cons.IH [OF this] insertParticipant_effect(4-6) [OF Inr] show ?thesis by simp
    qed
  next
    case False
    with Cons.prems have "insert_attendees i emails (res, d) = (out, d')" by auto
    from Cons.IH [OF this] show ?thesis .
  qed
qed

lemma insert_attendees_ok:
  "getNote d i \<noteq> None \<Longrightarrow> \<exists>r d'. insert_attendees i emails (res, d) = (Inr r, d')"
proof (induction emails arbitrary: res d)
  case Nil
  then show ?case by simp
next
  case (Cons email emails)
  show ?case
  proof (cases "truthy email \<and> truthy (trim email)")
    case True
    show ?thesis
    proof (cases rule: insertParticipant_cases [of "trim email" d i])
      case (ignored d1)
      from Cons.prems have "getNote d1 i \<noteq> None" unfolding getNote_notes [OF ignored(4)] .
      from Cons.IH [OF this, of "res\<lparr>participants_synced := Suc (participants_synced res)\<rparr>"]
      obtain r d' where "insert_attendees i emails
          (res\<lparr>participants_synced := Suc (participants_synced res)\<rparr>, d1) = (Inr r, d')"
        by blast
      with ignored(2) True have "insert_attendees i (email # emails) (res, d) = (Inr r, d')"
        by simp
      then show ?thesis by blast
    next
      case refused
      with Cons.prems show ?thesis by simp
    next
      case (written d1 k)
      from Cons.prems have "getNote d1 i \<noteq> None" unfolding getNote_notes [OF written(5)] .
      from Cons.IH [OF this, of "res\<lparr>participants_synced := Suc (participants_synced res)\<rparr>"]
      obtain r d' where "insert_attendees i emails
          (res\<lparr>participants_synced := Suc (participants_synced res)\<rparr>, d1) = (Inr r, d')"
        by blast
      with written(3) True have "insert_attendees i (email # emails) (res, d) = (Inr r, d')"
        by simp
      then show ?thesis by blast
    qed
  next
    case False
    from Cons.IH [OF Cons.prems, of res]
    obtain r d' where "insert_attendees i emails (res, d) = (Inr r, d')" by blast
    with False have "insert_attendees i (email # emails) (res, d) = (Inr r, d')" by auto
    then show ?thesis by blast
  qed
qed

lemma card_new_emails:
  assumes "finite A"
  shows "card (insert e A - P) = (if e \<in> P then 0 else 1) + card (A - insert e P)"
proof (cases "e \<in> P")
  case True
  then have e: "insert e A - P = A - insert e P" by blast
  show ?thesis unfolding e using True by simp
next
  case False
  then have e: "insert e A - P = insert e (A - insert e P)" by blast
  have n: "e \<notin> A - insert e P" by blast
  from assms have f: "finite (A - insert e P)" by (rule finite_Diff)
  have c: "card (insert e (A - insert e P)) = Suc (card (A - insert e P))"
    using f n by (rule card_insert_disjoint)
  show ?thesis unfolding e c using False by simp
qed

text \<open>
  The loop over the attendees: the count grows by one for every entry that is not
  blank, the table by one row for every email among them that the note did not have.
\<close>

lemma insert_attendees_count:
  "insert_attendees i emails (res, d) = (Inr res', d') \<Longrightarrow>
     participants_synced res' = participants_synced res
       + length (filter (\<lambda>e. truthy e \<and> truthy (trim e)) emails)
     \<and> set (getParticipantsForNote d' i) = set (getParticipantsForNote d i)
         \<union> set (map trim (filter (\<lambda>e. truthy e \<and> truthy (trim e)) emails))
     \<and> length (db_participants d') = length (db_participants d)
       + card (set (map trim (filter (\<lambda>e. truthy e \<and> truthy (trim e)) emails))
               - set (getParticipantsForNote d i))
     \<and> rows_of_others d' i = rows_of_others d i
     \<and> (distinct (getParticipantsForNote d i) \<longrightarrow> distinct (getParticipantsForNote d' i))"
proof (induction emails arbitrary: res d)
  case Nil
  then show ?case by simp
next
  case (Cons email emails)
  let ?es = "map trim (filter (\<lambda>e. truthy e \<and> truthy (trim e)) emails)"
  let ?P = "getParticipantsForNote d i"
  show ?case
  proof (cases "truthy email \<and> truthy (trim email)")
    case True
    show ?thesis
    proof (cases "insertParticipant i (trim email) d")
      case (Inl e)
      with Cons.prems True show ?thesis by simp
    next
      case (Inr d1)
      note eff = insertParticipant_effect(1-3) [OF Inr]
      from Cons.prems True Inr have "insert_attendees i emails
         (res\<lparr>participants_synced := Suc (participants_synced res)\<rparr>, d1) = (Inr res', d')"
        by simp
      note ih = Cons.IH [OF this]
      have p1: "set (getParticipantsForNote d1 i) = insert (trim email) (set ?P)"
        unfolding eff(1) by auto
      have c: "card (insert (trim email) (set ?es) - set ?P) =
          (if trim email \<in> set ?P then 0 else 1)
          + card (set ?es - insert (trim email) (set ?P))"
        by (rule card_new_emails) simp
      have dist: "distinct (getParticipantsForNote d1 i)" if "distinct ?P"
        unfolding eff(1) using that by simp
      have 1: "participants_synced res' = participants_synced res
          + length (filter (\<lambda>e. truthy e \<and> truthy (trim e)) (email # emails))"
        using ih True by simp
      have 2: "set (getParticipantsForNote d' i) = set ?P
          \<union> set (map trim (filter (\<lambda>e. truthy e \<and> truthy (trim e)) (email # emails)))"
        using ih True unfolding p1 by auto
      have "length (db_participants d') = length (db_participants d1)
          + card (set ?es - insert (trim email) (set ?P))"
        using ih unfolding p1 by blast
      then have 3: "length (db_participants d') = length (db_participants d)
          + card (set (map trim (filter (\<lambda>e. truthy e \<and> truthy (trim e)) (email # emails)))
                  - set ?P)"
        using True c eff(2) by simp
      have 4: "rows_of_others d' i = rows_of_others d i"
        using ih eff(3) by simp
      have 5: "distinct ?P \<longrightarrow> distinct (getParticipantsForNote d' i)"
        using ih dist by blast
      from 1 2 3 4 5 show ?thesis by blast
    qed
  next
    case False
    with Cons.prems have "insert_attendees i emails (res, d) = (Inr res', d')" by auto
    from Cons.IH [OF this] False show ?thesis by auto
  qed
qed

subsection \<open>The step for a note\<close>

lemma sync_action_items_frame:
  assumes "sync_action_items E note (res, (t, d)) = (out, (t', d'))"
  shows "db_notes d' = db_notes d \<and> db_recordings d' = db_recordings d
     \<and> db_sync_status d' = db_sync_status d \<and> db_participants d' = db_participants d
     \<and> (\<forall>r. out = Inr r \<longrightarrow> participants_synced r = participants_synced res)"
proof (cases "truthy_opt (n_content_markdown note)")
  case False
  with assms show ?thesis by (auto simp: sync_action_items_def)
next
  case True
  let ?d2 = "clearActionItemsForNote (n_id note) d"
  let ?x = "extractActionItems (case n_content_markdown note of None \<Rightarrow> [] | Some c \<Rightarrow> c)"
  show ?thesis
  proof (cases ?x)
    case (Inl e)
    with assms True have "d' = ?d2" "out = Inl e" by (simp_all add: sync_action_items_def)
    then show ?thesis by (simp add: clear_frames)
  next
    case (Inr items)
    with assms True have "insert_items E (n_id note) items (res, (t, ?d2)) = (out, (t', d'))"
      by (simp add: sync_action_items_def)
    from insert_items_frame [OF this] show ?thesis by (simp add: clear_frames)
  qed
qed

lemma sync_action_items_ok:
  assumes "getNote d (n_id note) \<noteq> None"
  shows "\<exists>r t' d'. sync_action_items E note (res, (t, d)) = (Inr r, (t', d'))"
proof (cases "truthy_opt (n_content_markdown note)")
  case False
  then show ?thesis by (simp add: sync_action_items_def)
next
  case True
  let ?d2 = "clearActionItemsForNote (n_id note) d"
  from extractActionItems_never_raises
  obtain items where items: "extractActionItems
      (case n_content_markdown note of None \<Rightarrow> [] | Some c \<Rightarrow> c) = Inr items" by blast
  from assms have "getNote ?d2 (n_id note) \<noteq> None"
    unfolding getNote_notes [OF clear_frames(1)] .
  from insert_items_ok [OF this, of E items res t]
  obtain r t' d' where "insert_items E (n_id note) items (res, (t, ?d2)) = (Inr r, (t', d'))"
    by blast
  with True items have "sync_action_items E note (res, (t, d)) = (Inr r, (t', d'))"
    by (simp add: sync_action_items_def)
  then show ?thesis by blast
qed

lemma sync_participants_frame:
  assumes "sync_participants note (res, d) = (out, d')"
  shows "db_notes d' = db_notes d \<and> db_recordings d' = db_recordings d
     \<and> db_sync_status d' = db_sync_status d"
proof (cases "n_event_attendees note")
  case None
  with assms show ?thesis by (simp add: sync_participants_def)
next
  case (Some attendees)
  show ?thesis
  proof (cases "length attendees > 0")
    case False
    with assms Some show ?thesis by (simp add: sync_participants_def)
  next
    case True
    with assms Some have "insert_attendees (n_id note) attendees
        (res, clearParticipantsForNote (n_id note) d) = (out, d')"
      by (simp add: sync_participants_def)
    from insert_attendees_frame [OF this] show ?thesis by (simp add: clear_frames)
  qed
qed

lemma sync_participants_ok:
  assumes "getNote d (n_id note) \<noteq> None"
  shows "\<exists>r d'. sync_participants note (res, d) = (Inr r, d')"
proof (cases "n_event_attendees note")
  case None
  then show ?thesis by (simp add: sync_participants_def)
next
  case (Some attendees)
  show ?thesis
  proof (cases "length attendees > 0")
    case False
    with Some show ?thesis by (simp add: sync_participants_def)
  next
    case True
    let ?d0 = "clearParticipantsForNote (n_id note) d"
    from assms have "getNote ?d0 (n_id note) \<noteq> None"
      unfolding getNote_notes [OF clear_frames(5)] .
    from insert_attendees_ok [OF this, of attendees res]
    obtain r d' where "insert_attendees (n_id note) attendees (res, ?d0) = (Inr r, d')" by blast
    with Some True have "sync_participants note (res, d) = (Inr r, d')"
      by (simp add: sync_participants_def)
    then show ?thesis by blast
  qed
qed

lemma getParticipantsForNote_rows: "getParticipantsForNote d i = map sp_email (rows_of d i)"
  by (simp add: getParticipantsForNote_def rows_of_def)

lemma clearParticipantsForNote_rows:
  "rows_of (clearParticipantsForNote i d) i = []"
  "getParticipantsForNote (clearParticipantsForNote i d) i = []"
  "rows_of_others (clearParticipantsForNote i d) i = rows_of_others d i"
  "db_participants (clearParticipantsForNote i d) = rows_of_others d i"
  "length (db_participants (clearParticipantsForNote i d)) \<le> length (db_participants d)"
  by (simp_all add: rows_of_def rows_of_others_def getParticipantsForNote_def
      clearParticipantsForNote_def)

text \<open>
  The participants of a note: the count grows by the number of entries that are not
  blank; when the note lists attendees its rows are deleted and one row is written for
  every distinct email among those entries.
\<close>

lemma sync_participants_count:
  assumes "sync_participants note (res, d) = (Inr res', d')"
  shows "participants_synced res' = participants_synced res + length (synced_emails note)"
    and "rows_of_others d' (n_id note) = rows_of_others d (n_id note)"
    and "attendees_listed note \<Longrightarrow>
           set (getParticipantsForNote d' (n_id note)) = set (synced_emails note)"
    and "attendees_listed note \<Longrightarrow> distinct (getParticipantsForNote d' (n_id note))"
    and "attendees_listed note \<Longrightarrow>
           length (db_participants d') =
             length (db_participants (clearParticipantsForNote (n_id note) d))
             + card (set (synced_emails note))"
    and "\<not> attendees_listed note \<Longrightarrow> db_participants d' = db_participants d"
    and "length (db_participants d') \<le> length (db_participants d) + length (synced_emails note)"
proof -
  let ?i = "n_id note"
  let ?d0 = "clearParticipantsForNote ?i d"
  have "participants_synced res' = participants_synced res + length (synced_emails note)
    \<and> rows_of_others d' ?i = rows_of_others d ?i
    \<and> (attendees_listed note \<longrightarrow>
           set (getParticipantsForNote d' ?i) = set (synced_emails note)
           \<and> distinct (getParticipantsForNote d' ?i)
           \<and> length (db_participants d') =
               length (db_participants ?d0) + card (set (synced_emails note)))
    \<and> (\<not> attendees_listed note \<longrightarrow> db_participants d' = db_participants d)
    \<and> length (db_participants d') \<le> length (db_participants d) + length (synced_emails note)"
  proof (cases "n_event_attendees note")
    case None
    with assms show ?thesis
      by (simp add: sync_participants_def synced_emails_def attendees_listed_def)
  next
    case (Some attendees)
    show ?thesis
    proof (cases "length attendees > 0")
      case False
      with assms Some show ?thesis
        by (simp add: sync_participants_def synced_emails_def attendees_listed_def)
    next
      case True
      with Some have listed: "attendees_listed note" by (simp add: attendees_listed_def)
      from Some have se: "synced_emails note =
          map trim (filter (\<lambda>e. truthy e \<and> truthy (trim e)) attendees)"
        by (simp add: synced_emails_def)
      from assms Some True have "insert_attendees ?i attendees (res, ?d0) = (Inr res', d')"
        by (simp add: sync_participants_def)
      note c = insert_attendees_count [OF this, folded se]
      have 1: "participants_synced res' = participants_synced res + length (synced_emails note)"
        using c unfolding se by simp
      have 2: "rows_of_others d' ?i = rows_of_others d ?i"
        using c by (simp add: clearParticipantsForNote_rows)
      have 3: "set (getParticipantsForNote d' ?i) = set (synced_emails note)"
        using c by (simp add: clearParticipantsForNote_rows)
      have 4: "distinct (getParticipantsForNote d' ?i)"
        using c by (simp add: clearParticipantsForNote_rows)
      have 5: "length (db_participants d') =
               length (db_participants ?d0) + card (set (synced_emails note))"
        using c by (simp add: clearParticipantsForNote_rows(2))
      have "card (set (synced_emails note)) \<le> length (synced_emails note)"
        by (rule card_length)
      with 5 clearParticipantsForNote_rows(5) [of ?i d]
      have 6: "length (db_participants d') \<le> length (db_participants d)
          + length (synced_emails note)" by linarith
      from 1 2 3 4 5 6 listed show ?thesis by blast
    qed
  qed
  then show "participants_synced res' = participants_synced res + length (synced_emails note)"
    and "rows_of_others d' (n_id note) = rows_of_others d (n_id note)"
    and "attendees_listed note \<Longrightarrow>
           set (getParticipantsForNote d' (n_id note)) = set (synced_emails note)"
    and "attendees_listed note \<Longrightarrow> distinct (getParticipantsForNote d' (n_id note))"
    and "attendees_listed note \<Longrightarrow>
           length (db_participants d') =
             length (db_participants (clearParticipantsForNote (n_id note) d))
             + card (set (synced_emails note))"
    and "\<not> attendees_listed note \<Longrightarrow> db_participants d' = db_participants d"
    and "length (db_participants d') \<le> length (db_participants d) + length (synced_emails note)"
    by blast+
qed

text \<open>
  The step for a note never throws: the note is upserted first, so the foreign keys of
  its action items and participants hold, and the extractor returns on every text.
\<close>

lemma sync_note_run:
  obtains res2 t2 d3 res3 d4 where
    "sync_action_items E note (res\<lparr>notes_synced := Suc (notes_synced res)\<rparr>,
        (Suc t, upsertNote (env_clock E t) (note_fields note) d)) = (Inr res2, (t2, d3))"
    "sync_participants note (res2, d3) = (Inr res3, d4)"
    "sync_note E note (res, (t, d)) = (Inr res3, (t2, d4))"
proof -
  let ?d1 = "upsertNote (env_clock E t) (note_fields note) d"
  let ?r1 = "res\<lparr>notes_synced := Suc (notes_synced res)\<rparr>"
  have "getNote ?d1 (sn_id (note_fields note)) \<noteq> None" by (rule getNote_upsertNote)
  then have g1: "getNote ?d1 (n_id note) \<noteq> None" by (simp add: note_fields_def)
  from sync_action_items_ok [OF g1, of E ?r1 "Suc t"]
  obtain res2 t2 d3 where a: "sync_action_items E note (?r1, (Suc t, ?d1)) = (Inr res2, (t2, d3))"
    by blast
  from sync_action_items_frame [OF a] have n3: "db_notes d3 = db_notes ?d1" by blast
  from g1 have g3: "getNote d3 (n_id note) \<noteq> None" unfolding getNote_notes [OF n3] .
  from sync_participants_ok [OF g3, of res2]
  obtain res3 d4 where p: "sync_participants note (res2, d3) = (Inr res3, d4)" by blast
  from a p have "sync_note E note (res, (t, d)) = (Inr res3, (t2, d4))"
    by (simp add: sync_note_def)
  with a p show ?thesis by (rule that)
qed

lemma sync_note_frame:
  assumes "sync_note E note (res, (t, d)) = (out, (t', d'))"
  shows "db_recordings d' = db_recordings d \<and> db_sync_status d' = db_sync_status d
     \<and> sn_id ` set (db_notes d) \<subseteq> sn_id ` set (db_notes d')"
proof -
  let ?d1 = "upsertNote (env_clock E t) (note_fields note) d"
  obtain res2 t2 d3 res3 d4 where
    a: "sync_action_items E note (res\<lparr>notes_synced := Suc (notes_synced res)\<rparr>,
        (Suc t, ?d1)) = (Inr res2, (t2, d3))"
    and p: "sync_participants note (res2, d3) = (Inr res3, d4)"
    and s: "sync_note E note (res, (t, d)) = (Inr res3, (t2, d4))"
    by (rule sync_note_run)
  from assms s have e: "d' = d4" by simp
  note fa = sync_action_items_frame [OF a]
  note fp = sync_participants_frame [OF p]
  have n1: "sn_id ` set (db_notes d) \<subseteq> sn_id ` set (db_notes ?d1)"
    by (simp add: note_ids_upsertNote subset_insertI)
  from fa fp have "db_notes d4 = db_notes ?d1" "db_recordings d4 = db_recordings ?d1"
    "db_sync_status d4 = db_sync_status ?d1" by simp_all
  with n1 show ?thesis unfolding e by (simp add: upsertNote_frame)
qed

lemma sync_note_count:
  assumes "sync_note E note (res, (t, d)) = (Inr res', (t', d'))"
  shows "participants_synced res' = participants_synced res + length (synced_emails note)"
    and "rows_of_others d' (n_id note) = rows_of_others d (n_id note)"
    and "attendees_listed note \<Longrightarrow>
           set (getParticipantsForNote d' (n_id note)) = set (synced_emails note)"
    and "attendees_listed note \<Longrightarrow> distinct (getParticipantsForNote d' (n_id note))"
    and "\<not> attendees_listed note \<Longrightarrow> db_participants d' = db_participants d"
    and "length (db_participants d') \<le> length (db_participants d) + length (synced_emails note)"
proof -
  let ?d1 = "upsertNote (env_clock E t) (note_fields note) d"
  obtain res2 t2 d3 res3 d4 where
    a: "sync_action_items E note (res\<lparr>notes_synced := Suc (notes_synced res)\<rparr>,
        (Suc t, ?d1)) = (Inr res2, (t2, d3))"
    and p: "sync_participants note (res2, d3) = (Inr res3, d4)"
    and s: "sync_note E note (res, (t, d)) = (Inr res3, (t2, d4))"
    by (rule sync_note_run)
  from assms s have e: "d' = d4" "res' = res3" by simp_all
  from sync_action_items_frame [OF a]
  have f: "db_participants d3 = db_participants d" "participants_synced res2 = participants_synced res"
    by (simp_all add: upsertNote_frame)
  from f(1) have o: "rows_of_others d3 (n_id note) = rows_of_others d (n_id note)"
    by (simp add: rows_of_others_def)
  note c = sync_participants_count [OF p]
  show "participants_synced res' = participants_synced res + length (synced_emails note)"
    unfolding e using c(1) f(2) by simp
  show "rows_of_others d' (n_id note) = rows_of_others d (n_id note)"
    unfolding e using c(2) o by simp
  show "set (getParticipantsForNote d' (n_id note)) = set (synced_emails note)"
    if "attendees_listed note" unfolding e using c(3) [OF that] .
  show "distinct (getParticipantsForNote d' (n_id note))"
    if "attendees_listed note" unfolding e using c(4) [OF that] .
  show "db_participants d' = db_participants d"
    if "\<not> attendees_listed note" unfolding e using c(6) [OF that] f(1) by simp
  show "length (db_participants d') \<le> length (db_participants d) + length (synced_emails note)"
    unfolding e using c(7) f(1) by simp
qed

subsection \<open>The loop over the pages of notes\<close>

lemma sync_notes_ok: "\<exists>r w'. sync_notes E ns (res, w) = (Inr r, w')"
proof (induction ns arbitrary: res w)
  case Nil
  then show ?case by simp
next
  case (Cons n ns)
  obtain t d where w: "w = (t, d)" by (cases w) auto
  obtain res2 t2 d3 res3 d4 where
    s: "sync_note E n (res, (t, d)) = (Inr res3, (t2, d4))"
    by (rule sync_note_run [of E n res t d])
  from Cons.IH [of res3 "(t2, d4)"]
  obtain r w' where "sync_notes E ns (res3, (t2, d4)) = (Inr r, w')" by blast
  with s have "sync_notes E (n # ns) (res, w) = (Inr r, w')" unfolding w by simp
  then show ?case by blast
qed

lemma sync_notes_never_raises: "sync_notes E ns rw \<noteq> (Inl e, w)"
proof -
  obtain res w0 where rw: "rw = (res, w0)" by (cases rw) auto
  from sync_notes_ok [of E ns res w0] show ?thesis unfolding rw by auto
qed

lemma sync_notes_frame:
  "sync_notes E ns (res, (t, d)) = (out, (t', d')) \<Longrightarrow>
     db_recordings d' = db_recordings d \<and> db_sync_status d' = db_sync_status d
     \<and> sn_id ` set (db_notes d) \<subseteq> sn_id ` set (db_notes d')"
proof (induction ns arbitrary: res t d)
  case Nil
  then show ?case by auto
next
  case (Cons n ns)
  obtain o1 t1 d1 where s: "sync_note E n (res, (t, d)) = (o1, (t1, d1))"
    by (metis prod.exhaust)
  note f = sync_note_frame [OF s]
  show ?case
  proof (cases o1)
    case (Inl e)
    with Cons.prems s have "d' = d1" by simp
    with f show ?thesis by simp
  next
    case (Inr r1)
    with Cons.prems s have "sync_notes E ns (r1, (t1, d1)) = (out, (t', d'))" by simp
    from Cons.IH [OF this] f show ?thesis by (simp, blast)
  qed
qed

lemma sync_notes_count:
  "sync_notes E ns (res, (t, d)) = (Inr res', (t', d')) \<Longrightarrow>
     participants_synced res' =
       participants_synced res + sum_list (map (\<lambda>n. length (synced_emails n)) ns)
     \<and> length (db_participants d') \<le>
       length (db_participants d) + sum_list (map (\<lambda>n. length (synced_emails n)) ns)"
proof (induction ns arbitrary: res t d)
  case Nil
  then show ?case by simp
next
  case (Cons n ns)
  obtain o1 t1 d1 where s: "sync_note E n (res, (t, d)) = (o1, (t1, d1))"
    by (metis prod.exhaust)
  show ?case
  proof (cases o1)
    case (Inl e)
    with Cons.prems s show ?thesis by simp
  next
    case (Inr r1)
    with Cons.prems s have "sync_notes E ns (r1, (t1, d1)) = (Inr res', (t', d'))" by simp
    note ih = Cons.IH [OF this]
    note c = sync_note_count(1,6) [OF s [unfolded Inr]]
    from ih c(1) have 1: "participants_synced res' =
       participants_synced res + sum_list (map (\<lambda>n. length (synced_emails n)) (n # ns))"
      by simp
    from ih c(2) have 2: "length (db_participants d') \<le>
       length (db_participants d) + sum_list (map (\<lambda>n. length (synced_emails n)) (n # ns))"
      by simp
    from 1 2 show ?thesis ..
  qed
qed

lemma notes_loop_frame:
  "notes_loop E fuel options cursor (res, (t, d)) = Some (out, (t', d')) \<Longrightarrow>
     db_recordings d' = db_recordings d \<and> db_sync_status d' = db_sync_status d
     \<and> sn_id ` set (db_notes d) \<subseteq> sn_id ` set (db_notes d')"
proof (induction fuel arbitrary: cursor res t d)
  case 0
  then show ?case by simp
next
  case (Suc fuel)
  show ?case
  proof (cases "listNotes E t (notes_request options cursor)")
    case (Inl e)
    with Suc.prems have "d' = d" by simp
    then show ?thesis by simp
  next
    case (Inr page)
    obtain o1 t1 d1 where s: "sync_notes E (page_data page) (res, (Suc t, d)) = (o1, (t1, d1))"
      by (metis prod.exhaust)
    note f = sync_notes_frame [OF s]
    show ?thesis
    proof (cases o1)
      case (Inl e)
      with Suc.prems Inr s have "d' = d1" by simp
      with f show ?thesis by simp
    next
      case r: (Inr r1)
      show ?thesis
      proof (cases "truthy_opt (pi_cursor (page_info page))")
        case True
        with Suc.prems Inr s r have
          "notes_loop E fuel options (pi_cursor (page_info page)) (r1, (t1, d1)) = Some (out, (t', d'))"
          by simp
        from Suc.IH [OF this] f show ?thesis by (simp, blast)
      next
        case False
        with Suc.prems Inr s r have "d' = d1" by simp
        with f show ?thesis by simp
      qed
    qed
  qed
qed

text \<open>The loop over the pages of notes ends with an exception only when a request fails.\<close>

lemma notes_loop_error:
  "notes_loop E fuel options cursor (res, (t, d)) = Some (Inl e, w) \<Longrightarrow>
     \<exists>t0 c. listNotes E t0 (notes_request options c) = Inl e"
proof (induction fuel arbitrary: cursor res t d)
  case 0
  then show ?case by simp
next
  case (Suc fuel)
  show ?case
  proof (cases "listNotes E t (notes_request options cursor)")
    case (Inl e')
    with Suc.prems have "e' = e" by simp
    with Inl show ?thesis by blast
  next
    case (Inr page)
    obtain o1 t1 d1 where s: "sync_notes E (page_data page) (res, (Suc t, d)) = (o1, (t1, d1))"
      by (metis prod.exhaust)
    show ?thesis
    proof (cases o1)
      case (Inl e')
      with s sync_notes_never_raises show ?thesis by blast
    next
      case r: (Inr r1)
      show ?thesis
      proof (cases "truthy_opt (pi_cursor (page_info page))")
        case True
        with Suc.prems Inr s r have
          "notes_loop E fuel options (pi_cursor (page_info page)) (r1, (t1, d1)) = Some (Inl e, w)"
          by simp
        from Suc.IH [OF this] show ?thesis .
      next
        case False
        with Suc.prems Inr s r show ?thesis by simp
      qed
    qed
  qed
qed

lemma notes_loop_count:
  "notes_loop E fuel options cursor (res, (t, d)) = Some (Inr res', (t', d')) \<Longrightarrow>
     participants_synced res \<le> participants_synced res'
     \<and> length (db_participants d') + participants_synced res
         \<le> length (db_participants d) + participants_synced res'"
proof (induction fuel arbitrary: cursor res t d)
  case 0
  then show ?case by simp
next
  case (Suc fuel)
  show ?case
  proof (cases "listNotes E t (notes_request options cursor)")
    case (Inl e)
    with Suc.prems show ?thesis by simp
  next
    case (Inr page)
    obtain o1 t1 d1 where s: "sync_notes E (page_data page) (res, (Suc t, d)) = (o1, (t1, d1))"
      by (metis prod.exhaust)
    show ?thesis
    proof (cases o1)
      case (Inl e)
      with Suc.prems Inr s show ?thesis by simp
    next
      case r: (Inr r1)
      note c = sync_notes_count [OF s [unfolded r]]
      have page: "participants_synced res \<le> participants_synced r1
         \<and> length (db_participants d1) + participants_synced res
             \<le> length (db_participants d) + participants_synced r1"
      proof
        from c show "participants_synced res \<le> participants_synced r1" by linarith
        from c show "length (db_participants d1) + participants_synced res
             \<le> length (db_participants d) + participants_synced r1" by linarith
      qed
      show ?thesis
      proof (cases "truthy_opt (pi_cursor (page_info page))")
        case True
        with Suc.prems Inr s r have
          "notes_loop E fuel options (pi_cursor (page_info page)) (r1, (t1, d1))
             = Some (Inr res', (t', d'))"
          by simp
        note ih = Suc.IH [OF this]
        show ?thesis
        proof
          from ih page show "participants_synced res \<le> participants_synced res'" by linarith
          from ih page show "length (db_participants d') + participants_synced res
             \<le> length (db_participants d) + participants_synced res'" by linarith
        qed
      next
        case False
        with Suc.prems Inr s r have "d' = d1" "res' = r1" by simp_all
        with page show ?thesis by simp
      qed
    qed
  qed
qed

text \<open>The loop, begun afresh at the head of a round, goes on as the whole loop does.\<close>

lemma notes_round_loop:
  "notes_round E options w0 n ns st \<Longrightarrow>
     notes_loop E (n + k) options None (zero_result, w0) = notes_loop E k options (fst st) (snd st)"
proof (induction arbitrary: k rule: notes_round.induct)
  case start
  show ?case by simp
next
  case (step n ns cursor res t d page res1 w1)
  have "notes_loop E (Suc n + k) options None (zero_result, w0) =
      notes_loop E (n + Suc k) options None (zero_result, w0)" by simp
  also have "\<dots> = notes_loop E (Suc k) options cursor (res, (t, d))"
    using step.IH [of "Suc k"] by simp
  also have "\<dots> = notes_loop E k options (pi_cursor (page_info page)) (res1, w1)"
    using step.hyps(2,3,4) by simp
  finally show ?case by simp
qed

lemma notes_round_frame:
  "notes_round E options w0 n ns st \<Longrightarrow>
     db_recordings (snd (snd (snd st))) = db_recordings (snd w0)
     \<and> db_sync_status (snd (snd (snd st))) = db_sync_status (snd w0)"
proof (induction rule: notes_round.induct)
  case start
  show ?case by simp
next
  case (step n ns cursor res t d page res1 w1)
  obtain t1 d1 where w1: "w1 = (t1, d1)" by (cases w1) auto
  from sync_notes_frame [OF step.hyps(3) [unfolded w1]] step.IH
  show ?case unfolding w1 by simp
qed

text \<open>The count of participants at the head of a round, and at the end of the loop.\<close>

lemma notes_round_count:
  "notes_round E options w0 n ns st \<Longrightarrow>
     participants_synced (fst (snd st)) = sum_list (map (\<lambda>n. length (synced_emails n)) ns)"
proof (induction rule: notes_round.induct)
  case start
  show ?case by (simp add: zero_result_def)
next
  case (step n ns cursor res t d page res1 w1)
  obtain t1 d1 where w1: "w1 = (t1, d1)" by (cases w1) auto
  from sync_notes_count [OF step.hyps(3) [unfolded w1]] step.IH
  show ?case by simp
qed

lemma notes_last_round:
  assumes "notes_round E options w0 n ns (cursor, res, (t, d))" and "n < fuel"
    and "listNotes E t (notes_request options cursor) = Inr page"
    and "\<not> truthy_opt (pi_cursor (page_info page))"
  shows "\<exists>res1 w1. notes_loop E fuel options None (zero_result, w0) = Some (Inr res1, w1)
     \<and> participants_synced res1 =
         sum_list (map (\<lambda>n. length (synced_emails n)) (ns @ page_data page))"
proof -
  from assms(2) obtain k where fuel: "fuel = n + Suc k"
    by (metis add_Suc_right less_iff_Suc_add)
  from sync_notes_ok [of E "page_data page" res "(Suc t, d)"]
  obtain res1 t1 d1 where s: "sync_notes E (page_data page) (res, (Suc t, d)) = (Inr res1, (t1, d1))"
    by (metis prod.exhaust)
  have "notes_loop E fuel options None (zero_result, w0) =
      notes_loop E (Suc k) options cursor (res, (t, d))"
    unfolding fuel using notes_round_loop [OF assms(1), of "Suc k"] by simp
  also have "\<dots> = Some (Inr res1, (t1, d1))" using assms(3,4) s by simp
  finally have l: "notes_loop E fuel options None (zero_result, w0) = Some (Inr res1, (t1, d1))" .
  from notes_round_count [OF assms(1)] sync_notes_count [OF s]
  have "participants_synced res1 =
      sum_list (map (\<lambda>n. length (synced_emails n)) (ns @ page_data page))" by simp
  with l show ?thesis by blast
qed

text \<open>A request for notes that fails, in any round, ends the pass with its error.\<close>

lemma notes_request_fails:
  assumes "notes_round E options (t0, d0) n ns (cursor, res, (t, d))" and "n < fuel"
    and "listNotes E t (notes_request options cursor) = Inl e"
  shows "syncNotesFromApi E fuel options (t0, d0) = Some (Inl e, (Suc t, d))"
    and "db_sync_status d = db_sync_status d0"
proof -
  from assms(2) obtain k where fuel: "fuel = n + Suc k"
    by (metis add_Suc_right less_iff_Suc_add)
  have "notes_loop E fuel options None (zero_result, (t0, d0)) =
      notes_loop E (Suc k) options cursor (res, (t, d))"
    unfolding fuel using notes_round_loop [OF assms(1), of "Suc k"] by simp
  also have "\<dots> = Some (Inl e, (Suc t, d))" using assms(3) by simp
  finally show "syncNotesFromApi E fuel options (t0, d0) = Some (Inl e, (Suc t, d))"
    by (simp add: syncNotesFromApi_def)
  from notes_round_frame [OF assms(1)] show "db_sync_status d = db_sync_status d0" by simp
qed

subsection \<open>The step for a recording\<close>

lemma orphan_notes: "db_notes d' = db_notes d \<Longrightarrow> orphan d' y = orphan d y"
  by (simp add: orphan_def getNote_def)

lemma recs_phase_refl: "recs_phase d d"
  by (simp add: recs_phase_def)

lemma recs_phaseD:
  assumes "recs_phase d d'"
  shows "db_notes d' = db_notes d" and "db_sync_status d' = db_sync_status d"
    and "db_participants d' = db_participants d"
    and "\<And>y. y \<in> set (db_recordings d') \<Longrightarrow> orphan d' y \<Longrightarrow> y \<in> set (db_recordings d)"
  using assms unfolding recs_phase_def by blast+

lemma recs_phaseI:
  assumes "db_notes d' = db_notes d" and "db_sync_status d' = db_sync_status d"
    and "db_participants d' = db_participants d"
    and "\<And>y. y \<in> set (db_recordings d') \<Longrightarrow> orphan d' y \<Longrightarrow> y \<in> set (db_recordings d)"
  shows "recs_phase d d'"
  using assms unfolding recs_phase_def by blast

lemma recs_phase_trans:
  assumes ab: "recs_phase a b" and bc: "recs_phase b c"
  shows "recs_phase a c"
proof (rule recs_phaseI)
  show "db_notes c = db_notes a"
    using recs_phaseD(1) [OF ab] recs_phaseD(1) [OF bc] by simp
  show "db_sync_status c = db_sync_status a"
    using recs_phaseD(2) [OF ab] recs_phaseD(2) [OF bc] by simp
  show "db_participants c = db_participants a"
    using recs_phaseD(3) [OF ab] recs_phaseD(3) [OF bc] by simp
next
  fix y assume y: "y \<in> set (db_recordings c)" "orphan c y"
  have 1: "y \<in> set (db_recordings b)" using recs_phaseD(4) [OF bc y] .
  have "orphan b y" using y(2) orphan_notes [OF recs_phaseD(1) [OF bc], of y] by blast
  with 1 show "y \<in> set (db_recordings a)" by (rule recs_phaseD(4) [OF ab])
qed

text \<open>
  The step for a recording: skipped under the guard; refused by the foreign key when its
  \<open>note_id\<close> is empty and no note has the empty id; else written, for a note that is
  stored.
\<close>

lemma sync_recording_cases:
  obtains (skipped) "truthy (r_note_id recording)" "getNote d (r_note_id recording) = None"
      "sync_recording E recording (res, (t, d)) = (Inr res, (t, d))"
  | (refused) "r_note_id recording = []" "getNote d [] = None"
      "sync_recording E recording (res, (t, d)) = (Inl foreign_key_failed, (Suc t, d))"
  | (written) d1 where "getNote d (r_note_id recording) \<noteq> None"
      "sync_recording E recording (res, (t, d)) =
         (Inr (res\<lparr>recordings_synced := Suc (recordings_synced res)\<rparr>), (Suc t, d1))"
      "recs_phase d d1"
      "\<exists>y \<in> set (db_recordings d1). sr_id y = r_id recording \<and> sr_note_id y = r_note_id recording"
proof (cases "getNote d (r_note_id recording) = None")
  case True
  show ?thesis
  proof (cases "truthy (r_note_id recording)")
    case t: True
    with True have "sync_recording E recording (res, (t, d)) = (Inr res, (t, d))"
      by (simp add: sync_recording_def)
    with t True show ?thesis by (rule skipped)
  next
    case f: False
    then have b: "r_note_id recording = []" by (simp add: truthy_def)
    from True have "getNote d (sr_note_id (recording_fields E recording)) = None"
      by (simp add: recording_fields_def)
    then have "upsertRecording (env_clock E t) (recording_fields E recording) d
        = Inl foreign_key_failed"
      by (simp add: upsertRecording_def)
    with f have "sync_recording E recording (res, (t, d)) = (Inl foreign_key_failed, (Suc t, d))"
      by (simp add: sync_recording_def)
    with b True show ?thesis by (intro refused) simp_all
  qed
next
  case False
  have n: "sr_note_id (recording_fields E recording) = r_note_id recording"
    and i: "sr_id (recording_fields E recording) = r_id recording"
    by (simp_all add: recording_fields_def)
  show ?thesis
  proof (cases rule: upsertRecording_cases
      [of d "recording_fields E recording" "env_clock E t"])
    case refused
    with False n show ?thesis by simp
  next
    case (written d1)
    from False written(2) have s: "sync_recording E recording (res, (t, d)) =
         (Inr (res\<lparr>recordings_synced := Suc (recordings_synced res)\<rparr>), (Suc t, d1))"
      by (simp add: sync_recording_def)
    have p: "recs_phase d d1"
    proof (rule recs_phaseI)
      show "db_notes d1 = db_notes d" "db_sync_status d1 = db_sync_status d"
        "db_participants d1 = db_participants d" by (rule written)+
    next
      fix y assume y: "y \<in> set (db_recordings d1)" "orphan d1 y"
      from written(6) [OF y(1)] show "y \<in> set (db_recordings d)"
      proof
        assume "sr_note_id y = sr_note_id (recording_fields E recording)"
        then have "sr_note_id y = r_note_id recording" unfolding n .
        with y(2) have "getNote d1 (r_note_id recording) = None" by (simp add: orphan_def)
        then have "getNote d (r_note_id recording) = None"
          unfolding getNote_notes [OF written(3)] .
        with False show ?thesis by simp
      qed
    qed
    from written(7) have
      "\<exists>y \<in> set (db_recordings d1). sr_id y = r_id recording \<and> sr_note_id y = r_note_id recording"
      unfolding n i .
    with False s p show ?thesis by (rule that(3))
  qed
qed

lemma sync_recording_frame:
  assumes "sync_recording E recording (res, (t, d)) = (out, (t', d'))"
  shows "recs_phase d d'
     \<and> (\<forall>r. out = Inr r \<longrightarrow> participants_synced r = participants_synced res)
     \<and> (\<forall>e. out = Inl e \<longrightarrow> e = foreign_key_failed)"
proof (cases rule: sync_recording_cases [of recording d E res t])
  case skipped
  with assms show ?thesis by (auto simp: recs_phase_refl)
next
  case refused
  with assms show ?thesis by (auto simp: recs_phase_refl)
next
  case (written d1)
  with assms have "d' = d1" "out = Inr (res\<lparr>recordings_synced := Suc (recordings_synced res)\<rparr>)"
    by simp_all
  with written(3) show ?thesis by simp
qed

subsection \<open>The loop over the pages of recordings\<close>

lemma sync_recordings_frame:
  "sync_recordings E rs (res, (t, d)) = (out, (t', d')) \<Longrightarrow>
     recs_phase d d'
     \<and> (\<forall>r. out = Inr r \<longrightarrow> participants_synced r = participants_synced res)
     \<and> (\<forall>e. out = Inl e \<longrightarrow> e = foreign_key_failed)"
proof (induction rs arbitrary: res t d)
  case Nil
  then show ?case by (auto simp: recs_phase_refl)
next
  case (Cons r rs)
  obtain o1 t1 d1 where s: "sync_recording E r (res, (t, d)) = (o1, (t1, d1))"
    by (metis prod.exhaust)
  note f = sync_recording_frame [OF s]
  show ?case
  proof (cases o1)
    case (Inl e)
    with Cons.prems s have "d' = d1" "out = Inl e" by simp_all
    with f Inl show ?thesis by simp
  next
    case (Inr r1)
    with Cons.prems s have "sync_recordings E rs (r1, (t1, d1)) = (out, (t', d'))" by simp
    note g = Cons.IH [OF this]
    from f g have "recs_phase d d'" by (blast intro: recs_phase_trans)
    moreover from f g Inr have "\<forall>r. out = Inr r \<longrightarrow> participants_synced r = participants_synced res"
      by simp
    moreover from g have "\<forall>e. out = Inl e \<longrightarrow> e = foreign_key_failed" by blast
    ultimately show ?thesis by blast
  qed
qed


lemma recordings_loop_frame:
  "recordings_loop E fuel options cursor (res, (t, d)) = Some (out, (t', d')) \<Longrightarrow>
     recs_phase d d' \<and> (\<forall>r. out = Inr r \<longrightarrow> participants_synced r = participants_synced res)"
proof (induction fuel arbitrary: cursor res t d)
  case 0
  then show ?case by simp
next
  case (Suc fuel)
  show ?case
  proof (cases "listRecordings E t (recordings_request options cursor)")
    case (Inl e)
    with Suc.prems have "d' = d" "out = Inl e" by simp_all
    then show ?thesis by (simp add: recs_phase_refl)
  next
    case (Inr page)
    obtain o1 t1 d1 where
      s: "sync_recordings E (page_data page) (res, (Suc t, d)) = (o1, (t1, d1))"
      by (metis prod.exhaust)
    note f = sync_recordings_frame [OF s]
    show ?thesis
    proof (cases o1)
      case (Inl e)
      with Suc.prems Inr s have "d' = d1" "out = Inl e" by simp_all
      with f show ?thesis by simp
    next
      case r: (Inr r1)
      show ?thesis
      proof (cases "truthy_opt (pi_cursor (page_info page))")
        case True
        with Suc.prems Inr s r have
          l: "recordings_loop E fuel options (pi_cursor (page_info page)) (r1, (t1, d1))
                = Some (out, (t', d'))"
          by simp
        note g = Suc.IH [OF l]
        from f g have "recs_phase d d'" by (blast intro: recs_phase_trans)
        moreover from f g r
        have "\<forall>r. out = Inr r \<longrightarrow> participants_synced r = participants_synced res" by simp
        ultimately show ?thesis ..
      next
        case False
        with Suc.prems Inr s r have "d' = d1" "out = Inr r1" by simp_all
        with f r show ?thesis by simp
      qed
    qed
  qed
qed

text \<open>
  The loop over the pages of recordings ends with an exception only when a request
  fails or the foreign key refuses a recording.
\<close>

lemma recordings_loop_error:
  "recordings_loop E fuel options cursor (res, (t, d)) = Some (Inl e, w) \<Longrightarrow>
     (\<exists>t0 c. listRecordings E t0 (recordings_request options c) = Inl e)
     \<or> e = foreign_key_failed"
proof (induction fuel arbitrary: cursor res t d)
  case 0
  then show ?case by simp
next
  case (Suc fuel)
  show ?case
  proof (cases "listRecordings E t (recordings_request options cursor)")
    case (Inl e')
    with Suc.prems have "e' = e" by simp
    with Inl show ?thesis by blast
  next
    case (Inr page)
    obtain o1 t1 d1 where
      s: "sync_recordings E (page_data page) (res, (Suc t, d)) = (o1, (t1, d1))"
      by (metis prod.exhaust)
    show ?thesis
    proof (cases o1)
      case (Inl e')
      with Suc.prems Inr s have "e' = e" by simp
      with sync_recordings_frame [OF s] Inl show ?thesis by simp
    next
      case r: (Inr r1)
      show ?thesis
      proof (cases "truthy_opt (pi_cursor (page_info page))")
        case True
        with Suc.prems Inr s r have
          "recordings_loop E fuel options (pi_cursor (page_info page)) (r1, (t1, d1))
             = Some (Inl e, w)"
          by simp
        from Suc.IH [OF this] show ?thesis .
      next
        case False
        with Suc.prems Inr s r show ?thesis by simp
      qed
    qed
  qed
qed

lemma recordings_round_loop:
  "recordings_round E options res0 w0 n st \<Longrightarrow>
     recordings_loop E (n + k) options None (res0, w0) =
     recordings_loop E k options (fst st) (snd st)"
proof (induction arbitrary: k rule: recordings_round.induct)
  case start
  show ?case by simp
next
  case (step n cursor res t d page res1 w1)
  have "recordings_loop E (Suc n + k) options None (res0, w0) =
      recordings_loop E (n + Suc k) options None (res0, w0)" by simp
  also have "\<dots> = recordings_loop E (Suc k) options cursor (res, (t, d))"
    using step.IH [of "Suc k"] by simp
  also have "\<dots> = recordings_loop E k options (pi_cursor (page_info page)) (res1, w1)"
    using step.hyps(2,3,4) by simp
  finally show ?case by simp
qed

lemma recordings_round_frame:
  "recordings_round E options res0 w0 n st \<Longrightarrow> recs_phase (snd w0) (snd (snd (snd st)))"
proof (induction rule: recordings_round.induct)
  case start
  show ?case by (simp add: recs_phase_refl)
next
  case (step n cursor res t d page res1 w1)
  obtain t1 d1 where w1: "w1 = (t1, d1)" by (cases w1) auto
  from sync_recordings_frame [OF step.hyps(3) [unfolded w1]]
  have "recs_phase d d1" by blast
  with step.IH have "recs_phase (snd w0) d1" by (auto intro: recs_phase_trans)
  then show ?case unfolding w1 by simp
qed

subsection \<open>The pass\<close>

lemma syncNotesFromApi_cases:
  assumes "syncNotesFromApi E fuel options w = Some (out, w')"
  obtains (notes_failed) e where "out = Inl e"
      "notes_loop E fuel options None (zero_result, w) = Some (Inl e, w')"
  | (recordings_failed) e res1 w1 where "out = Inl e"
      "notes_loop E fuel options None (zero_result, w) = Some (Inr res1, w1)"
      "recordings_loop E fuel options None (res1, w1) = Some (Inl e, w')"
  | (finished) res res1 w1 t2 d2 where "out = Inr res"
      "notes_loop E fuel options None (zero_result, w) = Some (Inr res1, w1)"
      "recordings_loop E fuel options None (res1, w1) = Some (Inr res, (t2, d2))"
      "w' = (Suc t2, setLastSyncTime (env_clock E t2) d2)"
proof (cases "notes_loop E fuel options None (zero_result, w)")
  case None
  with assms show ?thesis by (simp add: syncNotesFromApi_def)
next
  case (Some a)
  obtain o1 w1 where a: "a = (o1, w1)" by (cases a) auto
  show ?thesis
  proof (cases o1)
    case (Inl e)
    with assms Some a have "out = Inl e" "w' = w1" by (simp_all add: syncNotesFromApi_def)
    with Some a Inl show ?thesis by (auto intro: notes_failed)
  next
    case (Inr res1)
    show ?thesis
    proof (cases "recordings_loop E fuel options None (res1, w1)")
      case None
      with assms Some a Inr show ?thesis by (simp add: syncNotesFromApi_def)
    next
      case s2: (Some b)
      obtain o2 t2 d2 where b: "b = (o2, (t2, d2))" by (cases b) auto
      show ?thesis
      proof (cases o2)
        case l: (Inl e)
        with assms Some a Inr s2 b have "out = Inl e" "w' = (t2, d2)"
          by (simp_all add: syncNotesFromApi_def)
        with Some a Inr s2 b l show ?thesis by (auto intro: recordings_failed)
      next
        case r: (Inr res)
        with assms Some a Inr s2 b have "out = Inr res"
          "w' = (Suc t2, setLastSyncTime (env_clock E t2) d2)"
          by (simp_all add: syncNotesFromApi_def)
        with Some a Inr s2 b r show ?thesis by (auto intro: finished)
      qed
    qed
  qed
qed

lemma getLastSyncTime_set: "getLastSyncTime (setLastSyncTime time d) = Some time"
proof -
  have "find (\<lambda>kv. fst kv = ''last_sync'')
          (upsert_row (\<lambda>kv. fst kv = ''last_sync'') (\<lambda>kv. (fst kv, time)) (''last_sync'', time) xs)
        = Some (case find (\<lambda>kv. fst kv = ''last_sync'') xs of None \<Rightarrow> (''last_sync'', time)
                | Some x \<Rightarrow> (fst x, time))" for xs
    by (rule find_upsert_row_same) simp_all
  then show ?thesis
    by (simp add: getLastSyncTime_def setLastSyncTime_def split: option.splits)
qed

lemma setLastSyncTime_frame:
  "db_notes (setLastSyncTime time d) = db_notes d"
  "db_recordings (setLastSyncTime time d) = db_recordings d"
  "db_participants (setLastSyncTime time d) = db_participants d"
  by (simp_all add: setLastSyncTime_def)

text \<open>
  In the second loop, a request that fails and a page whose sync throws, in any round,
  end the pass with the error.
\<close>

lemma recordings_request_fails:
  assumes "notes_loop E fuel options None (zero_result, (t0, d0)) = Some (Inr res1, w1)"
    and "recordings_round E options res1 w1 n (cursor, res, (t, d))" and "n < fuel"
    and "listRecordings E t (recordings_request options cursor) = Inl e"
  shows "syncNotesFromApi E fuel options (t0, d0) = Some (Inl e, (Suc t, d))"
    and "db_sync_status d = db_sync_status d0"
proof -
  obtain t1 d1 where w1: "w1 = (t1, d1)" by (cases w1) auto
  from assms(3) obtain k where fuel: "fuel = n + Suc k"
    by (metis add_Suc_right less_iff_Suc_add)
  have "recordings_loop E fuel options None (res1, w1) =
      recordings_loop E (Suc k) options cursor (res, (t, d))"
    unfolding fuel using recordings_round_loop [OF assms(2), of "Suc k"] by simp
  also have "\<dots> = Some (Inl e, (Suc t, d))" using assms(4) by simp
  finally show "syncNotesFromApi E fuel options (t0, d0) = Some (Inl e, (Suc t, d))"
    using assms(1) by (simp add: syncNotesFromApi_def)
  from notes_loop_frame [OF assms(1) [unfolded w1]]
  have "db_sync_status d1 = db_sync_status d0" by blast
  moreover from recordings_round_frame [OF assms(2)]
  have "db_sync_status d = db_sync_status d1" unfolding w1 by (simp add: recs_phaseD(2))
  ultimately show "db_sync_status d = db_sync_status d0" by simp
qed


text \<open>What a pass that ends with an exception has thrown, and what it has kept.\<close>

lemma syncNotesFromApi_error:
  assumes "syncNotesFromApi E fuel options (t, d) = Some (Inl e, (t', d'))"
  shows "(\<exists>t0 c. listNotes E t0 (notes_request options c) = Inl e)
     \<or> (\<exists>t0 c. listRecordings E t0 (recordings_request options c) = Inl e)
     \<or> e = foreign_key_failed"
    and "db_sync_status d' = db_sync_status d"
proof -
  have "((\<exists>t0 c. listNotes E t0 (notes_request options c) = Inl e)
     \<or> (\<exists>t0 c. listRecordings E t0 (recordings_request options c) = Inl e)
     \<or> e = foreign_key_failed) \<and> db_sync_status d' = db_sync_status d"
    using assms
  proof (cases rule: syncNotesFromApi_cases)
    case (notes_failed e')
    then have l: "notes_loop E fuel options None (zero_result, (t, d)) = Some (Inl e, (t', d'))"
      by simp
    from notes_loop_error [OF l] notes_loop_frame [OF l] show ?thesis by blast
  next
    case (recordings_failed e' res1 w1)
    obtain t1 d1 where w1: "w1 = (t1, d1)" by (cases w1) auto
    from recordings_failed have
      l: "recordings_loop E fuel options None (res1, (t1, d1)) = Some (Inl e, (t', d'))"
      unfolding w1 by simp
    from notes_loop_frame [OF recordings_failed(2) [unfolded w1]]
    have "db_sync_status d1 = db_sync_status d" by blast
    moreover from recordings_loop_frame [OF l]
    have "db_sync_status d' = db_sync_status d1" by (simp add: recs_phaseD(2))
    ultimately have "db_sync_status d' = db_sync_status d" by simp
    with recordings_loop_error [OF l] show ?thesis by blast
  next
    case (finished res res1 w1 t2 d2)
    then show ?thesis by simp
  qed
  then show "(\<exists>t0 c. listNotes E t0 (notes_request options c) = Inl e)
     \<or> (\<exists>t0 c. listRecordings E t0 (recordings_request options c) = Inl e)
     \<or> e = foreign_key_failed"
    and "db_sync_status d' = db_sync_status d" by blast+
qed

text \<open>
  Claim C4. A request of the remote client that fails, for a page of notes or of
  recordings, in whatever round of its loop, ends the pass at once: the pass returns
  that error and no counts, in the world of the failed request, where the
  \<open>sync_status\<close> table is as it was before the pass. Every pass that ends with an
  exception leaves the table, so the watermark, as it was; its exception is the error
  of a list request or the refusal of a recording by the foreign key, since nothing
  else in a pass throws. A pass that returns its counts has run both loops to their
  last page without touching the table, and then wrote the watermark, once, as its last
  step.
\<close>

theorem syncNotesFromApi_watermark:
  "(notes_round E options (t0, d0) n ns (cursor, res, (t, d)) \<and> n < fuel
      \<and> listNotes E t (notes_request options cursor) = Inl e \<longrightarrow>
      syncNotesFromApi E fuel options (t0, d0) = Some (Inl e, (Suc t, d))
      \<and> db_sync_status d = db_sync_status d0)
   \<and> (notes_loop E fuel options None (zero_result, (t0, d0)) = Some (Inr res1, w1)
      \<and> recordings_round E options res1 w1 n (cursor, res, (t, d)) \<and> n < fuel
      \<and> listRecordings E t (recordings_request options cursor) = Inl e \<longrightarrow>
      syncNotesFromApi E fuel options (t0, d0) = Some (Inl e, (Suc t, d))
      \<and> db_sync_status d = db_sync_status d0)
   \<and> (syncNotesFromApi E fuel options (t0, d0) = Some (Inl e, (t', d')) \<longrightarrow>
        db_sync_status d' = db_sync_status d0 \<and> getLastSyncTime d' = getLastSyncTime d0
        \<and> ((\<exists>t1 c. listNotes E t1 (notes_request options c) = Inl e)
           \<or> (\<exists>t1 c. listRecordings E t1 (recordings_request options c) = Inl e)
           \<or> e = foreign_key_failed))
   \<and> (syncNotesFromApi E fuel options (t0, d0) = Some (Inr r, (t', d')) \<longrightarrow>
        (\<exists>res1 w1 t2 d2.
           notes_loop E fuel options None (zero_result, (t0, d0)) = Some (Inr res1, w1)
           \<and> recordings_loop E fuel options None (res1, w1) = Some (Inr r, (t2, d2))
           \<and> db_sync_status d2 = db_sync_status d0
           \<and> t' = Suc t2 \<and> d' = setLastSyncTime (env_clock E t2) d2
           \<and> getLastSyncTime d' = Some (env_clock E t2)))"
proof (intro conjI impI)
  assume a: "notes_round E options (t0, d0) n ns (cursor, res, (t, d)) \<and> n < fuel
      \<and> listNotes E t (notes_request options cursor) = Inl e"
  then have r: "notes_round E options (t0, d0) n ns (cursor, res, (t, d))" and n: "n < fuel"
    and l: "listNotes E t (notes_request options cursor) = Inl e" by blast+
  show "syncNotesFromApi E fuel options (t0, d0) = Some (Inl e, (Suc t, d))"
    by (rule notes_request_fails(1) [OF r n l])
  show "db_sync_status d = db_sync_status d0"
    by (rule notes_request_fails(2) [OF r n l])
next
  assume a: "notes_loop E fuel options None (zero_result, (t0, d0)) = Some (Inr res1, w1)
      \<and> recordings_round E options res1 w1 n (cursor, res, (t, d)) \<and> n < fuel
      \<and> listRecordings E t (recordings_request options cursor) = Inl e"
  then have p: "notes_loop E fuel options None (zero_result, (t0, d0)) = Some (Inr res1, w1)"
    and r: "recordings_round E options res1 w1 n (cursor, res, (t, d))" and n: "n < fuel"
    and l: "listRecordings E t (recordings_request options cursor) = Inl e" by blast+
  show "syncNotesFromApi E fuel options (t0, d0) = Some (Inl e, (Suc t, d))"
    by (rule recordings_request_fails(1) [OF p r n l])
  show "db_sync_status d = db_sync_status d0"
    by (rule recordings_request_fails(2) [OF p r n l])
next
  assume a: "syncNotesFromApi E fuel options (t0, d0) = Some (Inl e, (t', d'))"
  show s: "db_sync_status d' = db_sync_status d0"
    by (rule syncNotesFromApi_error(2) [OF a])
  then show "getLastSyncTime d' = getLastSyncTime d0" by (simp add: getLastSyncTime_def)
  show "(\<exists>t1 c. listNotes E t1 (notes_request options c) = Inl e)
     \<or> (\<exists>t1 c. listRecordings E t1 (recordings_request options c) = Inl e)
     \<or> e = foreign_key_failed"
    by (rule syncNotesFromApi_error(1) [OF a])
next
  assume a: "syncNotesFromApi E fuel options (t0, d0) = Some (Inr r, (t', d'))"
  from a show "\<exists>res1 w1 t2 d2.
           notes_loop E fuel options None (zero_result, (t0, d0)) = Some (Inr res1, w1)
           \<and> recordings_loop E fuel options None (res1, w1) = Some (Inr r, (t2, d2))
           \<and> db_sync_status d2 = db_sync_status d0
           \<and> t' = Suc t2 \<and> d' = setLastSyncTime (env_clock E t2) d2
           \<and> getLastSyncTime d' = Some (env_clock E t2)"
  proof (cases rule: syncNotesFromApi_cases)
    case (notes_failed e)
    then show ?thesis by simp
  next
    case (recordings_failed e res1 w1)
    then show ?thesis by simp
  next
    case (finished res res1 w1 t2 d2)
    obtain t1 d1 where w1: "w1 = (t1, d1)" by (cases w1) auto
    from notes_loop_frame [OF finished(2) [unfolded w1]]
      recordings_loop_frame [OF finished(3) [unfolded w1]]
    have "db_sync_status d2 = db_sync_status d0" by (simp add: recs_phase_def)
    with finished show ?thesis by (simp add: getLastSyncTime_set)
  qed
qed


subsection \<open>The options of a pass\<close>

lemma notes_loop_since:
  "since o1 = since o2 \<Longrightarrow> notes_loop E fuel o1 c rw = notes_loop E fuel o2 c rw"
proof (induction fuel arbitrary: c rw)
  case 0
  then show ?case by simp
next
  case (Suc fuel)
  obtain res t d where rw: "rw = (res, (t, d))" by (cases rw) auto
  show ?case unfolding rw using Suc
    by (simp add: notes_request_def split: sum.splits prod.splits)
qed

lemma recordings_loop_options:
  "since o1 = since o2 \<Longrightarrow>
   (case includeTranscripts o1 of None \<Rightarrow> False | Some b \<Rightarrow> b) =
   (case includeTranscripts o2 of None \<Rightarrow> False | Some b \<Rightarrow> b) \<Longrightarrow>
   recordings_loop E fuel o1 c rw = recordings_loop E fuel o2 c rw"
proof (induction fuel arbitrary: c rw)
  case 0
  then show ?case by simp
next
  case (Suc fuel)
  obtain res t d where rw: "rw = (res, (t, d))" by (cases rw) auto
  show ?case unfolding rw using Suc
    by (simp add: recordings_request_def split: sum.splits prod.splits)
qed

lemma syncNotesFromApi_options:
  assumes "since o1 = since o2"
    and "(case includeTranscripts o1 of None \<Rightarrow> False | Some b \<Rightarrow> b) =
         (case includeTranscripts o2 of None \<Rightarrow> False | Some b \<Rightarrow> b)"
  shows "syncNotesFromApi E fuel o1 w = syncNotesFromApi E fuel o2 w"
proof -
  have a: "notes_loop E fuel o1 = notes_loop E fuel o2"
    by (intro ext) (rule notes_loop_since [OF assms(1)])
  have b: "recordings_loop E fuel o1 = recordings_loop E fuel o2"
    by (intro ext) (rule recordings_loop_options [OF assms])
  show ?thesis unfolding syncNotesFromApi_def a b ..
qed

text \<open>
  Claim C3. With no watermark in the store (none, or the empty string, which the test
  \<open>!lastSync\<close> treats alike) the incremental entry point is the full sync: the same
  call, hence the same requests, the same writes and the same counts. It is also what
  the forced path of the sync tool runs, unless that asks for transcripts.
\<close>

theorem incremental_without_watermark_is_full_sync:
  "\<not> truthy_opt (getLastSyncTime (snd w)) \<Longrightarrow>
     performIncrementalSync E fuel w =
       syncNotesFromApi E fuel \<lparr>since = None, includeTranscripts = None\<rparr> w
     \<and> (arg_include_transcripts args \<noteq> Some True \<longrightarrow>
          performIncrementalSync E fuel w =
            sync_meetings_pass E fuel (args\<lparr>arg_force := Some True\<rparr>) w)"
proof -
  assume a: "\<not> truthy_opt (getLastSyncTime (snd w))"
  have 1: "performIncrementalSync E fuel w =
       syncNotesFromApi E fuel \<lparr>since = None, includeTranscripts = None\<rparr> w"
    using a by (simp add: performIncrementalSync_def)
  have 2: "arg_include_transcripts args \<noteq> Some True \<Longrightarrow>
      syncNotesFromApi E fuel \<lparr>since = None, includeTranscripts = None\<rparr> w =
      sync_meetings_pass E fuel (args\<lparr>arg_force := Some True\<rparr>) w"
    unfolding sync_meetings_pass_def
    by (simp, rule syncNotesFromApi_options) (auto split: option.splits)
  from 1 2 show ?thesis by simp
qed

subsection \<open>Counting participants\<close>

lemma pass_participants:
  assumes "syncNotesFromApi E fuel options (t, d) = Some (Inr r, (t', d'))"
  shows "length (db_participants d') \<le> length (db_participants d) + participants_synced r"
  using assms
proof (cases rule: syncNotesFromApi_cases)
  case (notes_failed e)
  then show ?thesis by simp
next
  case (recordings_failed e res1 w1)
  then show ?thesis by simp
next
  case (finished res2 res1 w1 t2 d2)
  obtain t1 d1 where w1: "w1 = (t1, d1)" by (cases w1) auto
  from notes_loop_count [OF finished(2) [unfolded w1]]
  have n: "length (db_participants d1) \<le> length (db_participants d) + participants_synced res1"
    by (simp add: zero_result_def)
  from recordings_loop_frame [OF finished(3) [unfolded w1]]
  have "db_participants d2 = db_participants d1"
    "participants_synced res2 = participants_synced res1"
    by (simp_all add: recs_phaseD(3))
  moreover from finished(4) have "db_participants d' = db_participants d2"
    by (simp add: setLastSyncTime_frame)
  moreover from finished(1) have "r = res2" by simp
  ultimately show ?thesis using n by simp
qed

text \<open>
  Claim C9, as the code has it. The field \<open>participants\<close> counts the calls of
  \<open>insertParticipant\<close>, and a call writes one row or, for a pair that is stored, none.
  The step for a note never throws; it adds to the field the number of entries of the
  attendee list that are not blank. When the list is not empty the rows of the note
  are deleted first, and the rows of the note after the step, all of them inserted by
  it, are one for every distinct email among those entries: at most as many as the
  field has grown by, and as many exactly when no email is repeated. The rows of the
  other notes are not touched. Over a page the field grows by the number of such
  entries of all its notes. The field that a pass returns is that number for all the
  notes of all the pages of the pass, and the table of participants has grown by no
  more than the field.
\<close>

theorem participants_synced_counts_insert_calls:
  "(insertParticipant i e d = Inr d1 \<longrightarrow>
      length (db_participants d1) =
        length (db_participants d) + (if e \<in> set (getParticipantsForNote d i) then 0 else 1))
   \<and> rows_of (clearParticipantsForNote i d) i = []
   \<and> (\<exists>res' t' d'. sync_note E nt (res, (t, d)) = (Inr res', (t', d'))
        \<and> participants_synced res' = participants_synced res + length (synced_emails nt)
        \<and> rows_of_others d' (n_id nt) = rows_of_others d (n_id nt)
        \<and> (if attendees_listed nt
           then set (map sp_email (rows_of d' (n_id nt))) = set (synced_emails nt)
              \<and> length (rows_of d' (n_id nt)) = card (set (synced_emails nt))
              \<and> length (rows_of d' (n_id nt)) \<le> length (synced_emails nt)
              \<and> (length (rows_of d' (n_id nt)) = length (synced_emails nt)
                   \<longleftrightarrow> distinct (synced_emails nt))
           else rows_of d' (n_id nt) = rows_of d (n_id nt)))
   \<and> (sync_notes E ns (res, (t, d)) = (Inr res2, (t2, d2)) \<longrightarrow>
        participants_synced res2 =
          participants_synced res + sum_list (map (\<lambda>n. length (synced_emails n)) ns))
   \<and> (notes_round E options (t, d) n seen (cursor, rs, (tn, dn)) \<and> n < fuel
        \<and> listNotes E tn (notes_request options cursor) = Inr page
        \<and> \<not> truthy_opt (pi_cursor (page_info page))
        \<and> syncNotesFromApi E fuel options (t, d) = Some (Inr r, (t2, d2)) \<longrightarrow>
        participants_synced r =
          sum_list (map (\<lambda>n. length (synced_emails n)) (seen @ page_data page)))
   \<and> (syncNotesFromApi E fuel options (t, d) = Some (Inr r, (t2, d2)) \<longrightarrow>
        length (db_participants d2) \<le> length (db_participants d) + participants_synced r)"
proof (intro conjI impI)
  assume "insertParticipant i e d = Inr d1"
  then show "length (db_participants d1) =
        length (db_participants d) + (if e \<in> set (getParticipantsForNote d i) then 0 else 1)"
    by (rule insertParticipant_effect(2))
next
  show "rows_of (clearParticipantsForNote i d) i = []"
    by (rule clearParticipantsForNote_rows(1))
next
  obtain res2 t2 d3 res3 d4 where
    s: "sync_note E nt (res, (t, d)) = (Inr res3, (t2, d4))"
    by (rule sync_note_run [of E nt res t d])
  note c = sync_note_count [OF s]
  let ?rows = "rows_of d4 (n_id nt)"
  have listed: "set (map sp_email ?rows) = set (synced_emails nt)
              \<and> length ?rows = card (set (synced_emails nt))
              \<and> length ?rows \<le> length (synced_emails nt)
              \<and> (length ?rows = length (synced_emails nt) \<longleftrightarrow> distinct (synced_emails nt))"
    if l: "attendees_listed nt"
  proof -
    from c(3) [OF l] have s1: "set (map sp_email ?rows) = set (synced_emails nt)"
      unfolding getParticipantsForNote_rows .
    from c(4) [OF l] have "distinct (map sp_email ?rows)"
      unfolding getParticipantsForNote_rows .
    then have "card (set (map sp_email ?rows)) = length (map sp_email ?rows)"
      by (rule distinct_card)
    with s1 have s2: "length ?rows = card (set (synced_emails nt))" by simp
    have s3: "card (set (synced_emails nt)) \<le> length (synced_emails nt)"
      by (rule card_length)
    have s4: "card (set (synced_emails nt)) = length (synced_emails nt)
        \<longleftrightarrow> distinct (synced_emails nt)"
      using card_distinct [of "synced_emails nt"] distinct_card [of "synced_emails nt"]
      by blast
    from s1 s2 s3 s4 show ?thesis by simp
  qed
  have unlisted: "rows_of d4 (n_id nt) = rows_of d (n_id nt)"
    if "\<not> attendees_listed nt"
    using c(5) [OF that] by (simp add: rows_of_def)
  have "if attendees_listed nt
           then set (map sp_email ?rows) = set (synced_emails nt)
              \<and> length ?rows = card (set (synced_emails nt))
              \<and> length ?rows \<le> length (synced_emails nt)
              \<and> (length ?rows = length (synced_emails nt) \<longleftrightarrow> distinct (synced_emails nt))
           else rows_of d4 (n_id nt) = rows_of d (n_id nt)"
  proof (cases "attendees_listed nt")
    case True
    show ?thesis unfolding if_P [OF True] by (rule listed [OF True])
  next
    case False
    show ?thesis unfolding if_not_P [OF False] by (rule unlisted [OF False])
  qed
  with s c(1,2) show "\<exists>res' t' d'. sync_note E nt (res, (t, d)) = (Inr res', (t', d'))
        \<and> participants_synced res' = participants_synced res + length (synced_emails nt)
        \<and> rows_of_others d' (n_id nt) = rows_of_others d (n_id nt)
        \<and> (if attendees_listed nt
           then set (map sp_email (rows_of d' (n_id nt))) = set (synced_emails nt)
              \<and> length (rows_of d' (n_id nt)) = card (set (synced_emails nt))
              \<and> length (rows_of d' (n_id nt)) \<le> length (synced_emails nt)
              \<and> (length (rows_of d' (n_id nt)) = length (synced_emails nt)
                   \<longleftrightarrow> distinct (synced_emails nt))
           else rows_of d' (n_id nt) = rows_of d (n_id nt))"
    by blast
next
  assume "sync_notes E ns (res, (t, d)) = (Inr res2, (t2, d2))"
  from sync_notes_count [OF this]
  show "participants_synced res2 =
        participants_synced res + sum_list (map (\<lambda>n. length (synced_emails n)) ns)"
    by simp
next
  assume "notes_round E options (t, d) n seen (cursor, rs, (tn, dn)) \<and> n < fuel
        \<and> listNotes E tn (notes_request options cursor) = Inr page
        \<and> \<not> truthy_opt (pi_cursor (page_info page))
        \<and> syncNotesFromApi E fuel options (t, d) = Some (Inr r, (t2, d2))"
  then have a: "notes_round E options (t, d) n seen (cursor, rs, (tn, dn))" "n < fuel"
    "listNotes E tn (notes_request options cursor) = Inr page"
    "\<not> truthy_opt (pi_cursor (page_info page))"
    and p: "syncNotesFromApi E fuel options (t, d) = Some (Inr r, (t2, d2))" by blast+
  from notes_last_round [OF a] obtain res3 w3 where
    l: "notes_loop E fuel options None (zero_result, (t, d)) = Some (Inr res3, w3)"
    and c: "participants_synced res3 =
         sum_list (map (\<lambda>n. length (synced_emails n)) (seen @ page_data page))" by blast
  from p have "participants_synced r = participants_synced res3"
  proof (cases rule: syncNotesFromApi_cases)
    case (notes_failed e)
    then show ?thesis by simp
  next
    case (recordings_failed e res1 w1)
    then show ?thesis by simp
  next
    case (finished res4 res5 w5 t6 d6)
    obtain t5 d5 where w5: "w5 = (t5, d5)" by (cases w5) auto
    from finished(2) l have "res5 = res3" by simp
    moreover from recordings_loop_frame [OF finished(3) [unfolded w5]]
    have "participants_synced res4 = participants_synced res5" by simp
    moreover from finished(1) have "r = res4" by simp
    ultimately show ?thesis by simp
  qed
  with c show "participants_synced r =
          sum_list (map (\<lambda>n. length (synced_emails n)) (seen @ page_data page))" by simp
next
  assume "syncNotesFromApi E fuel options (t, d) = Some (Inr r, (t2, d2))"
  then show "length (db_participants d2) \<le> length (db_participants d) + participants_synced r"
    by (rule pass_participants)
qed

subsection \<open>Fuel\<close>

text \<open>A loop that has returned returns the same with any more fuel.\<close>

lemma notes_loop_fuel:
  "notes_loop E fuel options cursor rw = Some r \<Longrightarrow>
     notes_loop E (fuel + k) options cursor rw = Some r"
proof (induction fuel arbitrary: cursor rw)
  case 0
  then show ?case by simp
next
  case (Suc fuel)
  obtain res t d where rw: "rw = (res, (t, d))" by (cases rw) auto
  from Suc.prems Suc.IH show ?case unfolding rw
    by (auto split: sum.splits prod.splits if_splits)
qed

lemma recordings_loop_fuel:
  "recordings_loop E fuel options cursor rw = Some r \<Longrightarrow>
     recordings_loop E (fuel + k) options cursor rw = Some r"
proof (induction fuel arbitrary: cursor rw)
  case 0
  then show ?case by simp
next
  case (Suc fuel)
  obtain res t d where rw: "rw = (res, (t, d))" by (cases rw) auto
  from Suc.prems Suc.IH show ?case unfolding rw
    by (auto split: sum.splits prod.splits if_splits)
qed

lemma syncNotesFromApi_fuel:
  assumes "syncNotesFromApi E fuel options w = Some (out, w')"
  shows "syncNotesFromApi E (fuel + k) options w = Some (out, w')"
  using assms
proof (cases rule: syncNotesFromApi_cases)
  case (notes_failed e)
  from notes_loop_fuel [OF notes_failed(2), of k] notes_failed(1)
  show ?thesis by (simp add: syncNotesFromApi_def)
next
  case (recordings_failed e res1 w1)
  from notes_loop_fuel [OF recordings_failed(2), of k]
    recordings_loop_fuel [OF recordings_failed(3), of k] recordings_failed(1)
  show ?thesis by (simp add: syncNotesFromApi_def)
next
  case (finished res res1 w1 t2 d2)
  from notes_loop_fuel [OF finished(2), of k]
    recordings_loop_fuel [OF finished(3), of k] finished(1,4)
  show ?thesis by (simp add: syncNotesFromApi_def)
qed

section \<open>Properties of the handlers and the extractor on sample inputs\<close>

text \<open>
  Claim C7. On the single line \<open>- [x] Finish report @alice due: 2024-03-01\<close> the
  extractor yields exactly one item, completed, with assignee \<open>alice\<close> and due date
  \<open>2024-03-01\<close>. The line is taken by the checkbox pattern, so the assignee is the one
  that \<open>parseAssigneeAndDueDate\<close> finds in the content; the mention-prefixed pattern
  does not even match the line.
\<close>

theorem extractActionItems_checkbox_example:
  "extractActionItems ''- [x] Finish report @alice due: 2024-03-01'' =
     Inr [\<lparr>pa_content = ''Finish report @alice due: 2024-03-01'',
           pa_assignee = Some ''alice'', pa_due_date = Some ''2024-03-01'',
           pa_is_completed = True\<rparr>]
   \<and> rx_match ''- [x] Finish report @alice due: 2024-03-01'' rx_checkbox \<noteq> None
   \<and> rx_match ''- [x] Finish report @alice due: 2024-03-01'' rx_mention_line = None
   \<and> parseAssigneeAndDueDate ''Finish report @alice due: 2024-03-01'' =
       Inr (Some ''alice'', Some ''2024-03-01'')"
  by code_simp

text \<open>
  Claim C10. The query goes into the LIKE pattern as it is, so \<open>_\<close> and \<open>%\<close> in it are
  wildcards: there are a cache and a query with such a character for which the search
  returns, and the handler lists, a note that holds the query neither in its title nor
  in its content, whatever the case of the letters, and whatever the order that the
  engine gives to rows with equal keys.
\<close>

theorem searchNotes_wildcard_query:
  "\<exists>d query n.
     (CHR ''%'' \<in> set query \<or> CHR ''_'' \<in> set query)
     \<and> n \<in> set (searchNotes ties d query)
     \<and> indexOf (sn_title n) query = None
     \<and> indexOf (toLowerCase (sn_title n)) (toLowerCase query) = None
     \<and> (\<exists>content. sn_content_markdown n = Some content
            \<and> indexOf content query = None
            \<and> indexOf (toLowerCase content) (toLowerCase query) = None)
     \<and> tr_text (search_cached_notes ties d query) =
         ''# Search Results for: '' @ quote @ query @ quote @ nl @ nl
         @ ''Found 1 meetings:'' @ nl @ nl
         @ ''## '' @ sn_title n @ nl @ ''- Date: N/A'' @ nl
         @ ''- Note ID: '' @ sn_id n @ nl @ nl"
proof -
  have "(CHR ''%'' \<in> set ''a_c'' \<or> CHR ''_'' \<in> set ''a_c'')
     \<and> stored_abc \<in> set (searchNotes ties db_abc ''a_c'')
     \<and> indexOf (sn_title stored_abc) ''a_c'' = None
     \<and> indexOf (toLowerCase (sn_title stored_abc)) (toLowerCase ''a_c'') = None
     \<and> (sn_content_markdown stored_abc = Some ''Budget review''
            \<and> indexOf ''Budget review'' ''a_c'' = None
            \<and> indexOf (toLowerCase ''Budget review'') (toLowerCase ''a_c'') = None)
     \<and> tr_text (search_cached_notes ties db_abc ''a_c'') =
         ''# Search Results for: '' @ quote @ ''a_c'' @ quote @ nl @ nl
         @ ''Found 1 meetings:'' @ nl @ nl
         @ ''## '' @ sn_title stored_abc @ nl @ ''- Date: N/A'' @ nl
         @ ''- Note ID: '' @ sn_id stored_abc @ nl @ nl"
    by code_simp
  then show ?thesis by blast
qed

text \<open>
  Claim C5, on an input that names one address twice. The meeting \<open>n7\<close> has a
  participant row for every address of the input, and the number of its distinct
  matching addresses is the number of distinct addresses of the input; the query
  compares that number with the length of the list and returns nothing, while the
  same input without the repetition, and the any-participant query, return the meeting.
  This holds for every order among rows with equal keys.
\<close>

theorem getMeetingsWithAllParticipants_repeated_email:
  "getMeetingsWithAllParticipants ties db_one [''a@x.com'', ''a@x.com''] = []
   \<and> getMeetingsWithAllParticipants ties db_one [''a@x.com''] = [stored_abc]
   \<and> getMeetingsByParticipants ties db_one [''a@x.com'', ''a@x.com''] = [stored_abc]
   \<and> set [''a@x.com'', ''a@x.com''] \<subseteq> set (getParticipantsForNote db_one (sn_id stored_abc))
   \<and> length (remdups (filter (\<lambda>e. e \<in> set [''a@x.com'', ''a@x.com''])
               (getParticipantsForNote db_one (sn_id stored_abc)))) =
       length (remdups [''a@x.com'', ''a@x.com''])
   \<and> tr_text (get_meetings_by_participants ties db_one [''a@x.com'', ''a@x.com''] (Some True)) =
       ''No meetings found with all of: a@x.com, a@x.com''"
  by code_simp

text \<open>
  Claim C6, with the remote service down and one open action item in the cache. The
  incremental sync fails and the failure is caught: the handler returns the cached item.
  The text it returns is the plain listing, with no word of the failure; only the
  branch for an empty result (here the same call on a cache without action items) adds
  the sync error to its text. This holds for every order among rows with equal keys.
\<close>

theorem get_all_action_items_sync_failure_unreported:
  "map_option fst (performIncrementalSync env_down 5 (0, db_one)) =
     Some (Inl (ApiError ''Fellow API error (503): down''))
   \<and> map_option fst (get_all_action_items env_down ties 5 no_args (0, db_one)) =
     Some \<lparr>tr_text = ''# All Action Items'' @ nl @ nl
              @ ''Total: 1 items from 1 meetings'' @ nl
              @ ''Showing: incomplete only'' @ nl @ nl
              @ ''## abc'' @ nl @ ''Date: N/A'' @ nl @ nl
              @ ''- [ ] Send the budget'' @ nl @ nl,
            tr_isError = False\<rparr>
   \<and> map_option fst (get_all_action_items env_down ties 5 no_args (0, db_abc)) =
     Some \<lparr>tr_text = ''No action items found matching the criteria.'' @ nl @ nl
              @ warning_sign @ '' Sync error: Fellow API error (503): down'' @ nl @ nl
              @ ''DB stats: 1 notes, 0 action items total.'',
            tr_isError = False\<rparr>"
  by code_simp

section \<open>The claims on sample inputs: the sync pass\<close>

subsection \<open>Passes over the sample services\<close>

lemma fixture_pass:
  "syncNotesFromApi env_fixture 5 full_options (0, empty_db) =
     Some (Inr \<lparr>notes_synced = 2, recordings_synced = 1, action_items_found = 1,
                participants_synced = 2\<rparr>, (8, db_fixture))"
  by code_simp

lemma down_pass:
  "syncNotesFromApi env_down 5 full_options (0, db_one) =
     Some (Inl (ApiError ''Fellow API error (503): down''), (1, db_one))"
  by code_simp

lemma fixture_facts:
  "getLastSyncTime empty_db = None"
  "getLastSyncTime db_one = Some ''2024-02-02T00:00:00Z''"
  "env_clock env_fixture 7 = ''2024-03-01T00:00:00.007Z''"
  "filter (orphan db_fixture) (db_recordings db_fixture) = []"
  "getRecording db_fixture ''r2'' = None"
  "truthy (r_note_id recording_orphan)"
  "getNote db_fixture (r_note_id recording_orphan) = None"
  "getLastSyncTime db_first_page = None"
  "getLastSyncTime db_first_recording = None"
  "db_recordings db_first_page = []"
  by code_simp+

text \<open>The service that fails on the second page of notes.\<close>

lemma flaky_facts:
  "listNotes env_flaky 0 (notes_request full_options None) =
     Inr \<lparr>page_info = \<lparr>pi_cursor = Some ''p2'', pi_page_size = 50\<rparr>, page_data = [note_one]\<rparr>"
  "sync_notes env_flaky [note_one] (zero_result, (1, empty_db)) =
     (Inr \<lparr>notes_synced = 1, recordings_synced = 0, action_items_found = 1,
           participants_synced = 2\<rparr>, (3, db_first_page))"
  "listNotes env_flaky 3 (notes_request full_options (Some ''p2'')) =
     Inl (ApiError ''Fellow API error (502): bad gateway'')"
  by code_simp+

lemma flaky_round:
  "notes_round env_flaky full_options (0, empty_db) (Suc 0) [note_one]
     (Some ''p2'', \<lparr>notes_synced = 1, recordings_synced = 0, action_items_found = 1,
           participants_synced = 2\<rparr>, (3, db_first_page))"
proof -
  have s: "sync_notes env_flaky
      (page_data \<lparr>page_info = \<lparr>pi_cursor = Some ''p2'', pi_page_size = 50\<rparr>,
                  page_data = [note_one]\<rparr>) (zero_result, (Suc 0, empty_db)) =
     (Inr \<lparr>notes_synced = 1, recordings_synced = 0, action_items_found = 1,
           participants_synced = 2\<rparr>, (3, db_first_page))"
    using flaky_facts(2) by simp
  have c: "truthy_opt (pi_cursor (page_info
      \<lparr>page_info = \<lparr>pi_cursor = Some ''p2'', pi_page_size = 50\<rparr>, page_data = [note_one]\<rparr>))"
    by (simp add: truthy_opt_def truthy_def)
  from notes_round.step [OF notes_round.start flaky_facts(1) s c]
  show ?thesis by simp
qed

text \<open>The service that fails on the second page of recordings.\<close>

lemma norec_facts:
  "notes_loop env_norec 5 full_options None (zero_result, (0, empty_db)) =
     Some (Inr \<lparr>notes_synced = 1, recordings_synced = 0, action_items_found = 1,
                participants_synced = 2\<rparr>, (3, db_first_page))"
  "listRecordings env_norec 3 (recordings_request full_options None) =
     Inr \<lparr>page_info = \<lparr>pi_cursor = Some ''q2'', pi_page_size = 50\<rparr>,
          page_data = [recording_one]\<rparr>"
  "sync_recordings env_norec [recording_one]
     (\<lparr>notes_synced = 1, recordings_synced = 0, action_items_found = 1,
       participants_synced = 2\<rparr>, (4, db_first_page)) =
     (Inr \<lparr>notes_synced = 1, recordings_synced = 1, action_items_found = 1,
           participants_synced = 2\<rparr>, (5, db_first_recording))"
  "listRecordings env_norec 5 (recordings_request full_options (Some ''q2'')) =
     Inl (ApiError ''Fellow API error (502): bad gateway'')"
  by code_simp+

lemma norec_round:
  "recordings_round env_norec full_options
     \<lparr>notes_synced = 1, recordings_synced = 0, action_items_found = 1, participants_synced = 2\<rparr>
     (3, db_first_page) (Suc 0)
     (Some ''q2'', \<lparr>notes_synced = 1, recordings_synced = 1, action_items_found = 1,
           participants_synced = 2\<rparr>, (5, db_first_recording))"
proof -
  have s: "sync_recordings env_norec
      (page_data \<lparr>page_info = \<lparr>pi_cursor = Some ''q2'', pi_page_size = 50\<rparr>,
                  page_data = [recording_one]\<rparr>)
      (\<lparr>notes_synced = 1, recordings_synced = 0, action_items_found = 1,
        participants_synced = 2\<rparr>, (Suc 3, db_first_page)) =
     (Inr \<lparr>notes_synced = 1, recordings_synced = 1, action_items_found = 1,
           participants_synced = 2\<rparr>, (5, db_first_recording))"
    using norec_facts(3) by simp
  have c: "truthy_opt (pi_cursor (page_info
      \<lparr>page_info = \<lparr>pi_cursor = Some ''q2'', pi_page_size = 50\<rparr>,
       page_data = [recording_one]\<rparr>))"
    by (simp add: truthy_opt_def truthy_def)
  from recordings_round.step [OF recordings_round.start norec_facts(2) s c]
  show ?thesis by simp
qed




theorem incremental_without_watermark_is_full_sync_witness:
  "\<not> truthy_opt (getLastSyncTime (snd (0 :: nat, empty_db)))
   \<and> performIncrementalSync env_fixture 5 (0, empty_db) =
       Some (Inr \<lparr>notes_synced = 2, recordings_synced = 1, action_items_found = 1,
                  participants_synced = 2\<rparr>, (8, db_fixture))
   \<and> sync_meetings_pass env_fixture 5
         \<lparr>arg_force = Some True, arg_include_transcripts = Some False\<rparr> (0, empty_db) =
       Some (Inr \<lparr>notes_synced = 2, recordings_synced = 1, action_items_found = 1,
                  participants_synced = 2\<rparr>, (8, db_fixture))"
proof -
  have h: "\<not> truthy_opt (getLastSyncTime (snd (0 :: nat, empty_db)))"
    by (simp add: fixture_facts truthy_opt_def)
  note t = incremental_without_watermark_is_full_sync [OF h, of env_fixture 5
      "\<lparr>arg_force = Some True, arg_include_transcripts = Some False\<rparr>"]
  from t have e1: "performIncrementalSync env_fixture 5 (0, empty_db) =
      syncNotesFromApi env_fixture 5 full_options (0, empty_db)"
    unfolding full_options_def by (rule conjunct1)
  have ne: "arg_include_transcripts
      \<lparr>arg_force = Some True, arg_include_transcripts = Some False\<rparr> \<noteq> Some True"
    by simp
  have u: "\<lparr>arg_force = Some True, arg_include_transcripts = Some False\<rparr>\<lparr>arg_force := Some True\<rparr>
      = \<lparr>arg_force = Some True, arg_include_transcripts = Some False\<rparr>"
    by simp
  from t ne have "performIncrementalSync env_fixture 5 (0, empty_db) =
      sync_meetings_pass env_fixture 5
        (\<lparr>arg_force = Some True, arg_include_transcripts = Some False\<rparr>\<lparr>arg_force := Some True\<rparr>)
        (0, empty_db)"
    by blast
  then have e2: "sync_meetings_pass env_fixture 5
         \<lparr>arg_force = Some True, arg_include_transcripts = Some False\<rparr> (0, empty_db) =
      performIncrementalSync env_fixture 5 (0, empty_db)"
    unfolding u by (rule sym)
  show ?thesis unfolding e2 e1 fixture_pass using h by simp
qed

theorem syncNotesFromApi_watermark_witness:
  "notes_round env_flaky full_options (0, empty_db) 1 [note_one]
     (Some ''p2'', \<lparr>notes_synced = 1, recordings_synced = 0, action_items_found = 1,
           participants_synced = 2\<rparr>, (3, db_first_page))
   \<and> listNotes env_flaky 3 (notes_request full_options (Some ''p2'')) =
       Inl (ApiError ''Fellow API error (502): bad gateway'')
   \<and> syncNotesFromApi env_flaky 5 full_options (0, empty_db) =
       Some (Inl (ApiError ''Fellow API error (502): bad gateway''), (4, db_first_page))
   \<and> getLastSyncTime db_first_page = None
   \<and> notes_loop env_norec 5 full_options None (zero_result, (0, empty_db)) =
       Some (Inr \<lparr>notes_synced = 1, recordings_synced = 0, action_items_found = 1,
                  participants_synced = 2\<rparr>, (3, db_first_page))
   \<and> recordings_round env_norec full_options
       \<lparr>notes_synced = 1, recordings_synced = 0, action_items_found = 1,
        participants_synced = 2\<rparr>
       (3, db_first_page) 1
       (Some ''q2'', \<lparr>notes_synced = 1, recordings_synced = 1, action_items_found = 1,
           participants_synced = 2\<rparr>, (5, db_first_recording))
   \<and> listRecordings env_norec 5 (recordings_request full_options (Some ''q2'')) =
       Inl (ApiError ''Fellow API error (502): bad gateway'')
   \<and> syncNotesFromApi env_norec 5 full_options (0, empty_db) =
       Some (Inl (ApiError ''Fellow API error (502): bad gateway''), (6, db_first_recording))
   \<and> getLastSyncTime db_first_recording = None
   \<and> syncNotesFromApi env_down 5 full_options (0, db_one) =
       Some (Inl (ApiError ''Fellow API error (503): down''), (1, db_one))
   \<and> getLastSyncTime db_one = Some ''2024-02-02T00:00:00Z''
   \<and> syncNotesFromApi env_fixture 5 full_options (0, empty_db) =
       Some (Inr \<lparr>notes_synced = 2, recordings_synced = 1, action_items_found = 1,
                  participants_synced = 2\<rparr>, (8, db_fixture))
   \<and> getLastSyncTime empty_db = None
   \<and> getLastSyncTime db_fixture = Some ''2024-03-01T00:00:00.007Z''"
proof -
  let ?e = "ApiError ''Fellow API error (502): bad gateway''"
  let ?res1 = "\<lparr>notes_synced = 1, recordings_synced = 0, action_items_found = 1,
           participants_synced = 2\<rparr>"
  let ?res2 = "\<lparr>notes_synced = 1, recordings_synced = 1, action_items_found = 1,
           participants_synced = 2\<rparr>"
  have lt: "Suc 0 < (5 :: nat)" by simp
  have 1: "syncNotesFromApi env_flaky 5 full_options (0, empty_db) =
      Some (Inl ?e, (Suc 3, db_first_page))
    \<and> db_sync_status db_first_page = db_sync_status empty_db"
    using syncNotesFromApi_watermark [where E = env_flaky and options = full_options
      and ?t0.0 = 0 and ?d0.0 = empty_db and n = "Suc 0" and ns = "[note_one]"
      and cursor = "Some ''p2''"
      and res = ?res1 and t = 3 and d = db_first_page and fuel = 5 and e = ?e,
      THEN conjunct1]
      flaky_round flaky_facts(3) lt by blast
  have 2: "syncNotesFromApi env_norec 5 full_options (0, empty_db) =
      Some (Inl ?e, (Suc 5, db_first_recording))
    \<and> db_sync_status db_first_recording = db_sync_status empty_db"
    using syncNotesFromApi_watermark [where E = env_norec and options = full_options
      and ?t0.0 = 0 and ?d0.0 = empty_db and ?res1.0 = ?res1 and ?w1.0 = "(3, db_first_page)"
      and n = "Suc 0" and cursor = "Some ''q2''"
      and res = ?res2 and t = 5 and d = db_first_recording and fuel = 5 and e = ?e,
      THEN conjunct2, THEN conjunct1]
      norec_facts(1) norec_round norec_facts(4) lt by blast
  have "db_sync_status db_one = db_sync_status db_one
      \<and> getLastSyncTime db_one = getLastSyncTime db_one
      \<and> ((\<exists>t1 c. listNotes env_down t1 (notes_request full_options c)
              = Inl (ApiError ''Fellow API error (503): down''))
         \<or> (\<exists>t1 c. listRecordings env_down t1 (recordings_request full_options c)
              = Inl (ApiError ''Fellow API error (503): down''))
         \<or> ApiError ''Fellow API error (503): down'' = foreign_key_failed)"
    using syncNotesFromApi_watermark [where E = env_down and options = full_options
      and ?t0.0 = 0 and ?d0.0 = db_one and fuel = 5 and t' = 1 and d' = db_one
      and e = "ApiError ''Fellow API error (503): down''",
      THEN conjunct2, THEN conjunct2, THEN conjunct1]
      down_pass by blast
  have "\<exists>res1 w1 t2 d2.
           notes_loop env_fixture 5 full_options None (zero_result, (0, empty_db))
             = Some (Inr res1, w1)
           \<and> recordings_loop env_fixture 5 full_options None (res1, w1) =
               Some (Inr \<lparr>notes_synced = 2, recordings_synced = 1, action_items_found = 1,
                  participants_synced = 2\<rparr>, (t2, d2))
           \<and> db_sync_status d2 = db_sync_status empty_db
           \<and> 8 = Suc t2 \<and> db_fixture = setLastSyncTime (env_clock env_fixture t2) d2
           \<and> getLastSyncTime db_fixture = Some (env_clock env_fixture t2)"
    using syncNotesFromApi_watermark [where E = env_fixture and ?t0.0 = 0
      and options = full_options and fuel = 5 and ?d0.0 = empty_db and t' = 8
      and d' = db_fixture
      and r = "\<lparr>notes_synced = 2, recordings_synced = 1, action_items_found = 1,
                  participants_synced = 2\<rparr>",
      THEN conjunct2, THEN conjunct2, THEN conjunct2]
      fixture_pass by blast
  then obtain t2 where "8 = Suc t2"
    "getLastSyncTime db_fixture = Some (env_clock env_fixture t2)" by blast
  then have 3: "getLastSyncTime db_fixture = Some ''2024-03-01T00:00:00.007Z''"
    by (simp add: fixture_facts)
  have n: "Suc 3 = 4" "Suc 5 = 6" "Suc 0 = 1" by simp_all
  from 1 2 3 flaky_round norec_round flaky_facts(3) norec_facts(1,4) down_pass fixture_pass
    fixture_facts(1,2,8,9)
  show ?thesis unfolding n by simp
qed

lemma dup_pass:
  "syncNotesFromApi env_dup 5 full_options (0, empty_db) =
     Some (Inr \<lparr>notes_synced = 1, recordings_synced = 0, action_items_found = 0,
                participants_synced = 2\<rparr>, (4, db_dup))"
  by code_simp

lemma dup_facts:
  "sync_note env_dup note_dup (zero_result, (1, empty_db)) =
     (Inr \<lparr>notes_synced = 1, recordings_synced = 0, action_items_found = 0,
           participants_synced = 2\<rparr>, (2, db_dup\<lparr>db_sync_status := []\<rparr>))"
  "sync_notes env_dup [note_dup] (zero_result, (1, empty_db)) =
     (Inr \<lparr>notes_synced = 1, recordings_synced = 0, action_items_found = 0,
           participants_synced = 2\<rparr>, (2, db_dup\<lparr>db_sync_status := []\<rparr>))"
  "synced_emails note_dup = [''a@x.com'', ''a@x.com'']"
  "attendees_listed note_dup"
  "n_id note_dup = ''n2''"
  "insertParticipant ''n2'' ''a@x.com''
     (db_dup\<lparr>db_participants_seq := 1, db_sync_status := []\<rparr>) =
     Inr (db_dup\<lparr>db_sync_status := []\<rparr>)"
  "getParticipantsForNote (db_dup\<lparr>db_participants_seq := 1, db_sync_status := []\<rparr>) ''n2''
     = [''a@x.com'']"
  "length (db_participants db_fixture) = 2"
  "length (db_participants empty_db) = 0"
  "listNotes env_dup 0 (notes_request full_options None) =
     Inr \<lparr>page_info = \<lparr>pi_cursor = None, pi_page_size = 50\<rparr>, page_data = [note_dup]\<rparr>"
  by code_simp+

text \<open>
  Claim C9 as stated fails when a note lists an attendee twice: the pass over such a
  service from the empty store returns \<open>participants = 2\<close>, and the table of
  participants, empty before, holds one row after it. The second call of
  \<open>insertParticipant\<close> has written no row.
\<close>

theorem participants_synced_overcounts_repeated_attendee:
  "syncNotesFromApi env_dup 5 full_options (0, empty_db) =
     Some (Inr \<lparr>notes_synced = 1, recordings_synced = 0, action_items_found = 0,
                participants_synced = 2\<rparr>, (4, db_dup))
   \<and> db_participants empty_db = []
   \<and> db_participants db_dup = [\<lparr>sp_id = 1, sp_note_id = ''n2'', sp_email = ''a@x.com''\<rparr>]
   \<and> map_sum id db_participants
       (insertParticipant ''n2'' ''a@x.com''
          (db_dup\<lparr>db_participants_seq := 1, db_sync_status := []\<rparr>)) =
       Inr [\<lparr>sp_id = 1, sp_note_id = ''n2'', sp_email = ''a@x.com''\<rparr>]
   \<and> participants_synced \<lparr>notes_synced = 1, recordings_synced = 0, action_items_found = 0,
                participants_synced = 2\<rparr>
       \<noteq> length (db_participants db_dup) - length (db_participants empty_db)"
  by code_simp

theorem participants_synced_counts_insert_calls_witness:
  "insertParticipant ''n2'' ''a@x.com''
     (db_dup\<lparr>db_participants_seq := 1, db_sync_status := []\<rparr>) =
     Inr (db_dup\<lparr>db_sync_status := []\<rparr>)
   \<and> length (db_participants (db_dup\<lparr>db_sync_status := []\<rparr>)) =
       length (db_participants (db_dup\<lparr>db_participants_seq := 1, db_sync_status := []\<rparr>))
   \<and> sync_note env_dup note_dup (zero_result, (1, empty_db)) =
       (Inr \<lparr>notes_synced = 1, recordings_synced = 0, action_items_found = 0,
             participants_synced = 2\<rparr>, (2, db_dup\<lparr>db_sync_status := []\<rparr>))
   \<and> synced_emails note_dup = [''a@x.com'', ''a@x.com'']
   \<and> attendees_listed note_dup
   \<and> length (rows_of (db_dup\<lparr>db_sync_status := []\<rparr>) ''n2'') = 1
   \<and> sync_notes env_dup [note_dup] (zero_result, (1, empty_db)) =
       (Inr \<lparr>notes_synced = 1, recordings_synced = 0, action_items_found = 0,
             participants_synced = 2\<rparr>, (2, db_dup\<lparr>db_sync_status := []\<rparr>))
   \<and> syncNotesFromApi env_fixture 5 full_options (0, empty_db) =
       Some (Inr \<lparr>notes_synced = 2, recordings_synced = 1, action_items_found = 1,
                  participants_synced = 2\<rparr>, (8, db_fixture))
   \<and> length (db_participants db_fixture) \<le> length (db_participants empty_db) + 2
   \<and> notes_round env_dup full_options (0, empty_db) 0 [] (None, zero_result, (0, empty_db))
   \<and> listNotes env_dup 0 (notes_request full_options None) =
       Inr \<lparr>page_info = \<lparr>pi_cursor = None, pi_page_size = 50\<rparr>, page_data = [note_dup]\<rparr>
   \<and> syncNotesFromApi env_dup 5 full_options (0, empty_db) =
       Some (Inr \<lparr>notes_synced = 1, recordings_synced = 0, action_items_found = 0,
                  participants_synced = 2\<rparr>, (4, db_dup))
   \<and> length (synced_emails note_dup) = 2"
proof -
  let ?d1 = "db_dup\<lparr>db_participants_seq := 1, db_sync_status := []\<rparr>"
  let ?page = "\<lparr>page_info = \<lparr>pi_cursor = None, pi_page_size = 50\<rparr>, page_data = [note_dup]\<rparr>"
  let ?d2 = "db_dup\<lparr>db_sync_status := []\<rparr>"
  let ?r = "\<lparr>notes_synced = 1, recordings_synced = 0, action_items_found = 0,
             participants_synced = 2\<rparr>"
  have "length (db_participants ?d2) =
      length (db_participants ?d1)
      + (if ''a@x.com'' \<in> set (getParticipantsForNote ?d1 ''n2'') then 0 else 1)"
    using participants_synced_counts_insert_calls [where i = "''n2''" and e = "''a@x.com''"
      and d = ?d1 and ?d1.0 = ?d2, THEN conjunct1] dup_facts(6) by blast
  then have 1: "length (db_participants ?d2) = length (db_participants ?d1)"
    unfolding dup_facts(7) by simp
  from participants_synced_counts_insert_calls [where E = env_dup and nt = note_dup
      and res = zero_result and t = 1 and d = empty_db,
      THEN conjunct2, THEN conjunct2, THEN conjunct1]
  obtain res' t' d' where
    s: "sync_note env_dup note_dup (zero_result, (1, empty_db)) = (Inr res', (t', d'))"
    and l: "if attendees_listed note_dup
           then set (map sp_email (rows_of d' (n_id note_dup))) = set (synced_emails note_dup)
              \<and> length (rows_of d' (n_id note_dup)) = card (set (synced_emails note_dup))
              \<and> length (rows_of d' (n_id note_dup)) \<le> length (synced_emails note_dup)
              \<and> (length (rows_of d' (n_id note_dup)) = length (synced_emails note_dup)
                   \<longleftrightarrow> distinct (synced_emails note_dup))
           else rows_of d' (n_id note_dup) = rows_of empty_db (n_id note_dup)"
    by blast
  from s have d': "d' = ?d2" unfolding dup_facts(1) by simp
  from l have "length (rows_of ?d2 ''n2'') = card (set [''a@x.com'', ''a@x.com''])"
    unfolding d' if_P [OF dup_facts(4)] dup_facts(3) dup_facts(5) by (rule conjunct2 [THEN conjunct1])
  then have 2: "length (rows_of ?d2 ''n2'') = 1" by simp
  have 3: "length (db_participants db_fixture) \<le> length (db_participants empty_db) + 2"
    using participants_synced_counts_insert_calls [where E = env_fixture and fuel = 5
      and options = full_options and t = 0 and d = empty_db and ?t2.0 = 8 and ?d2.0 = db_fixture
      and r = "\<lparr>notes_synced = 2, recordings_synced = 1, action_items_found = 1,
                  participants_synced = 2\<rparr>",
      THEN conjunct2, THEN conjunct2, THEN conjunct2, THEN conjunct2, THEN conjunct2]
      fixture_pass by simp
  have lt: "(0::nat) < 5" by simp
  have c: "\<not> truthy_opt (pi_cursor (page_info ?page))" by (simp add: truthy_opt_def)
  have "participants_synced ?r =
      sum_list (map (\<lambda>n. length (synced_emails n)) ([] @ page_data ?page))"
    using participants_synced_counts_insert_calls [where E = env_dup and fuel = 5
      and options = full_options and t = 0 and d = empty_db and n = 0 and seen = "[]"
      and cursor = None and rs = zero_result and tn = 0 and dn = empty_db
      and page = ?page and r = ?r and ?t2.0 = 4 and ?d2.0 = db_dup,
      THEN conjunct2, THEN conjunct2, THEN conjunct2, THEN conjunct2, THEN conjunct1]
      notes_round.start [of env_dup full_options "(0, empty_db)"] lt dup_facts(10) c dup_pass
    by blast
  then have 4: "length (synced_emails note_dup) = 2" by simp
  from 1 2 3 4 dup_facts(1,2,3,4,6,10) fixture_pass dup_pass
    notes_round.start [of env_dup full_options "(0, empty_db)"]
  show ?thesis by simp
qed

section \<open>The claims on sample inputs: due dates\<close>




end
